theory Spec2Isabelle
  imports Complex_Main "HOL-Library.Multiset"
begin

section \<open>Data model\<close>

text \<open>
  A process is the dictionary \<^verbatim>\<open>{"id": ..., "burst": ..., "arrival": ..., "priority": ...}\<close>
  of \<^verbatim>\<open>os.py\<close>. The field \<^verbatim>\<open>id\<close> is called \<open>pid\<close> here, since \<open>id\<close> is the
  identity function of HOL. The numeric fields are integers, as the values that the
  number inputs of \<^verbatim>\<open>os.py\<close> hold; the section on numbers that are not integers repeats
  \<open>fcfs\<close> and \<open>round_robin\<close> over the rationals.
\<close>

record process =
  pid :: string
  burst :: int
  arrival :: int
  priority :: int

text \<open>
  An element of \<^verbatim>\<open>gantt\<close> is the tuple \<^verbatim>\<open>(p["id"], start, finish)\<close>; \<^verbatim>\<open>waiting\<close> and
  \<^verbatim>\<open>turnaround\<close> are dictionaries from process id to a time. A scheduling function
  returns the triple \<^verbatim>\<open>gantt, waiting, turnaround\<close>.
\<close>

type_synonym interval = "string \<times> int \<times> int"
type_synonym metrics = "string \<rightharpoonup> int"
type_synonym schedule_result = "interval list \<times> metrics \<times> metrics"

text \<open>The only exception the four functions can raise by themselves is the one of a
  dictionary read at a missing key.\<close>

datatype py_error = KeyError string

section \<open>First come, first served\<close>

text \<open>The \<^verbatim>\<open>for p in processes\<close> loop of \<^verbatim>\<open>fcfs\<close> (lines 16 to 24), with the local
  variables as arguments.\<close>

fun fcfs_loop :: "process list \<Rightarrow> int \<Rightarrow> interval list \<Rightarrow> metrics \<Rightarrow> metrics \<Rightarrow> schedule_result" where
  "fcfs_loop [] time gantt waiting turnaround = (gantt, waiting, turnaround)"
| "fcfs_loop (p # ps) time gantt waiting turnaround =
     (let time = (if time < arrival p then arrival p else time);
          start = time;
          finish = start + burst p
      in fcfs_loop ps finish (gantt @ [(pid p, start, finish)])
           (waiting(pid p \<mapsto> start - arrival p))
           (turnaround(pid p \<mapsto> finish - arrival p)))"

text \<open>Python's \<^verbatim>\<open>sorted\<close> is a stable sort, as \<^const>\<open>sort_key\<close> is.\<close>

definition fcfs :: "process list \<Rightarrow> schedule_result" where
  "fcfs processes = fcfs_loop (sort_key arrival processes) 0 [] Map.empty Map.empty"

section \<open>The admission loop\<close>

text \<open>
  The inner loop
  \<^verbatim>\<open>while i < len(processes) and processes[i]["arrival"] <= time: ready.append(processes[i]); i += 1\<close>
  occurs in \<^verbatim>\<open>sjf\<close>, in \<^verbatim>\<open>priority_scheduling\<close> and twice in \<^verbatim>\<open>round_robin\<close>. It
  returns the new index and the new list.
\<close>

function admit :: "process list \<Rightarrow> int \<Rightarrow> nat \<Rightarrow> process list \<Rightarrow> nat \<times> process list" where
  "admit processes time i ready =
     (if i < length processes \<and> arrival (processes ! i) \<le> time
      then admit processes time (i + 1) (ready @ [processes ! i])
      else (i, ready))"
  by pat_completeness auto
termination
  by (relation "measure (\<lambda>(processes, time, i, ready). length processes - i)") auto

declare admit.simps [simp del]

section \<open>Shortest job first and priority scheduling\<close>

text \<open>The local variables of \<^verbatim>\<open>sjf\<close> and of \<^verbatim>\<open>priority_scheduling\<close>.\<close>

record np_state =
  np_time :: int
  np_i :: nat
  np_ready :: "process list"
  np_gantt :: "interval list"
  np_waiting :: metrics
  np_turnaround :: metrics

text \<open>
  The body of the outer \<^verbatim>\<open>while\<close> loop (lines 33 to 45 and 54 to 66). The two functions
  are the same text but for the key of \<^verbatim>\<open>ready.sort\<close>, which is the parameter \<open>key\<close>.
  \<^verbatim>\<open>ready.sort\<close> is stable; \<^verbatim>\<open>ready.pop(0)\<close> is reached with a non-empty list only.
\<close>

definition np_body :: "(process \<Rightarrow> int) \<Rightarrow> process list \<Rightarrow> np_state \<Rightarrow> np_state" where
  "np_body key processes s =
     (let (i, ready) = admit processes (np_time s) (np_i s) (np_ready s)
      in if ready \<noteq> [] then
           (let ready = sort_key key ready;
                p = hd ready;
                ready = tl ready;
                start = np_time s;
                finish = np_time s + burst p
            in \<lparr>np_time = finish, np_i = i, np_ready = ready,
                np_gantt = np_gantt s @ [(pid p, start, finish)],
                np_waiting = (np_waiting s)(pid p \<mapsto> start - arrival p),
                np_turnaround = (np_turnaround s)(pid p \<mapsto> finish - arrival p)\<rparr>)
         else s\<lparr>np_time := np_time s + 1, np_i := i, np_ready := ready\<rparr>)"

definition np_cond :: "process list \<Rightarrow> np_state \<Rightarrow> bool" where
  "np_cond processes s \<longleftrightarrow> np_i s < length processes \<or> np_ready s \<noteq> []"

text \<open>The outer loop \<^verbatim>\<open>while i < len(processes) or ready\<close>; \<open>None\<close> is a loop that
  never ends.\<close>

partial_function (option) np_loop :: "(process \<Rightarrow> int) \<Rightarrow> process list \<Rightarrow> np_state \<Rightarrow> np_state option" where
  "np_loop key processes s =
     (if np_cond processes s then np_loop key processes (np_body key processes s) else Some s)"

declare np_loop.simps [code]

definition np_init :: np_state where
  "np_init = \<lparr>np_time = 0, np_i = 0, np_ready = [], np_gantt = [],
              np_waiting = Map.empty, np_turnaround = Map.empty\<rparr>"

definition np_result :: "np_state \<Rightarrow> schedule_result" where
  "np_result s = (np_gantt s, np_waiting s, np_turnaround s)"

definition sjf :: "process list \<Rightarrow> schedule_result option" where
  "sjf processes = map_option np_result (np_loop burst (sort_key arrival processes) np_init)"

definition priority_scheduling :: "process list \<Rightarrow> schedule_result option" where
  "priority_scheduling processes =
     map_option np_result (np_loop priority (sort_key arrival processes) np_init)"

section \<open>Round robin\<close>

text \<open>The local variables of \<^verbatim>\<open>round_robin\<close> that the \<^verbatim>\<open>while\<close> loop changes.\<close>

record rr_state =
  rr_time :: int
  rr_i :: nat
  rr_queue :: "process list"
  rr_gantt :: "interval list"
  rr_remaining :: "string \<rightharpoonup> int"
  rr_finish_time :: "string \<rightharpoonup> int"

text \<open>
  The body of the \<^verbatim>\<open>while\<close> loop (lines 78 to 96). \<^verbatim>\<open>remaining[p["id"]]\<close> raises
  \<^verbatim>\<open>KeyError\<close> at a missing key.
\<close>

definition rr_body :: "int \<Rightarrow> process list \<Rightarrow> rr_state \<Rightarrow> py_error + rr_state" where
  "rr_body quantum processes s =
     (let (i, queue) = admit processes (rr_time s) (rr_i s) (rr_queue s)
      in if queue \<noteq> [] then
           (let p = hd queue;
                queue = tl queue
            in case rr_remaining s (pid p) of
                 None \<Rightarrow> Inl (KeyError (pid p))
               | Some r \<Rightarrow>
                   (let exec_time = min quantum r;
                        start = rr_time s;
                        finish = rr_time s + exec_time;
                        gantt = rr_gantt s @ [(pid p, start, finish)];
                        remaining = (rr_remaining s)(pid p \<mapsto> r - exec_time);
                        time = finish
                    in if r - exec_time > 0 then
                         (let (i, queue) = admit processes time i queue
                          in Inr \<lparr>rr_time = time, rr_i = i, rr_queue = queue @ [p],
                                  rr_gantt = gantt, rr_remaining = remaining,
                                  rr_finish_time = rr_finish_time s\<rparr>)
                       else Inr \<lparr>rr_time = time, rr_i = i, rr_queue = queue,
                                 rr_gantt = gantt, rr_remaining = remaining,
                                 rr_finish_time = (rr_finish_time s)(pid p \<mapsto> time)\<rparr>))
         else Inr (s\<lparr>rr_time := rr_time s + 1, rr_i := i, rr_queue := queue\<rparr>))"

definition rr_cond :: "process list \<Rightarrow> rr_state \<Rightarrow> bool" where
  "rr_cond processes s \<longleftrightarrow> rr_i s < length processes \<or> rr_queue s \<noteq> []"

text \<open>The loop \<^verbatim>\<open>while i < len(processes) or queue\<close>: \<open>None\<close> is a loop that never
  ends, \<open>Some (Inl e)\<close> one that an exception leaves.\<close>

partial_function (option) rr_loop :: "int \<Rightarrow> process list \<Rightarrow> rr_state \<Rightarrow> (py_error + rr_state) option" where
  "rr_loop quantum processes s =
     (if rr_cond processes s then
        (case rr_body quantum processes s of
           Inl e \<Rightarrow> Some (Inl e)
         | Inr s' \<Rightarrow> rr_loop quantum processes s')
      else Some (Inr s))"

declare rr_loop.simps [code]

text \<open>The dictionary comprehension \<^verbatim>\<open>{p["id"]: p["burst"] for p in processes}\<close>: a
  later process overwrites an earlier one of the same id.\<close>

definition rr_remaining_init :: "process list \<Rightarrow> (string \<rightharpoonup> int)" where
  "rr_remaining_init processes = fold (\<lambda>p m. m(pid p \<mapsto> burst p)) processes Map.empty"

text \<open>The final \<^verbatim>\<open>for p in processes\<close> loop (lines 98 to 100); \<^verbatim>\<open>finish_time[p["id"]]\<close>
  raises \<^verbatim>\<open>KeyError\<close> at a missing key.\<close>

fun rr_metrics :: "process list \<Rightarrow> (string \<rightharpoonup> int) \<Rightarrow> metrics \<Rightarrow> metrics \<Rightarrow> py_error + metrics \<times> metrics" where
  "rr_metrics [] finish_time waiting turnaround = Inr (waiting, turnaround)"
| "rr_metrics (p # ps) finish_time waiting turnaround =
     (case finish_time (pid p) of
        None \<Rightarrow> Inl (KeyError (pid p))
      | Some f \<Rightarrow>
          (let turnaround = turnaround(pid p \<mapsto> f - arrival p);
               waiting = waiting(pid p \<mapsto> f - arrival p - burst p)
           in rr_metrics ps finish_time waiting turnaround))"

definition rr_init :: "process list \<Rightarrow> rr_state" where
  "rr_init processes = \<lparr>rr_time = 0, rr_i = 0, rr_queue = [], rr_gantt = [],
                         rr_remaining = rr_remaining_init processes,
                         rr_finish_time = Map.empty\<rparr>"

definition round_robin :: "process list \<Rightarrow> int \<Rightarrow> (py_error + schedule_result) option" where
  "round_robin processes quantum =
     (let processes = sort_key arrival processes
      in case rr_loop quantum processes (rr_init processes) of
           None \<Rightarrow> None
         | Some (Inl e) \<Rightarrow> Some (Inl e)
         | Some (Inr s) \<Rightarrow>
             (case rr_metrics processes (rr_finish_time s) Map.empty Map.empty of
                Inl e \<Rightarrow> Some (Inl e)
              | Inr (waiting, turnaround) \<Rightarrow> Some (Inr (rr_gantt s, waiting, turnaround))))"

section \<open>Valid input and the example of the specification\<close>

definition valid_processes :: "process list \<Rightarrow> bool" where
  "valid_processes processes \<longleftrightarrow>
     distinct (map pid processes) \<and> (\<forall>p \<in> set processes. 0 < burst p \<and> 0 \<le> arrival p)"

definition example_processes :: "process list" where
  "example_processes =
     [\<lparr>pid = ''P1'', burst = 5, arrival = 0, priority = 1\<rparr>,
      \<lparr>pid = ''P2'', burst = 3, arrival = 1, priority = 2\<rparr>,
      \<lparr>pid = ''P3'', burst = 8, arrival = 2, priority = 3\<rparr>]"


section \<open>Numbers that are not integers\<close>

text \<open>
  \<^verbatim>\<open>fcfs\<close> and \<^verbatim>\<open>round_robin\<close> do not look at the type of the numbers they are given.
  The definitions of this section are those of \<open>fcfs\<close> and \<open>round_robin\<close> above, line
  for line, with rational numbers for the bursts, the arrivals, the quantum and the
  clock; the \<^verbatim>\<open>1\<close> of \<^verbatim>\<open>time += 1\<close> stays the unit.
\<close>

record qprocess =
  qpid :: string
  qburst :: rat
  qarrival :: rat
  qpriority :: rat

type_synonym qinterval = "string \<times> rat \<times> rat"
type_synonym qmetrics = "string \<rightharpoonup> rat"
type_synonym qschedule_result = "qinterval list \<times> qmetrics \<times> qmetrics"

fun qfcfs_loop :: "qprocess list \<Rightarrow> rat \<Rightarrow> qinterval list \<Rightarrow> qmetrics \<Rightarrow> qmetrics \<Rightarrow> qschedule_result" where
  "qfcfs_loop [] time gantt waiting turnaround = (gantt, waiting, turnaround)"
| "qfcfs_loop (p # ps) time gantt waiting turnaround =
     (let time = (if time < qarrival p then qarrival p else time);
          start = time;
          finish = start + qburst p
      in qfcfs_loop ps finish (gantt @ [(qpid p, start, finish)])
           (waiting(qpid p \<mapsto> start - qarrival p))
           (turnaround(qpid p \<mapsto> finish - qarrival p)))"

definition qfcfs :: "qprocess list \<Rightarrow> qschedule_result" where
  "qfcfs processes = qfcfs_loop (sort_key qarrival processes) 0 [] Map.empty Map.empty"

function qadmit :: "qprocess list \<Rightarrow> rat \<Rightarrow> nat \<Rightarrow> qprocess list \<Rightarrow> nat \<times> qprocess list" where
  "qadmit processes time i ready =
     (if i < length processes \<and> qarrival (processes ! i) \<le> time
      then qadmit processes time (i + 1) (ready @ [processes ! i])
      else (i, ready))"
  by pat_completeness auto
termination
  by (relation "measure (\<lambda>(processes, time, i, ready). length processes - i)") auto

declare qadmit.simps [simp del]

record qrr_state =
  qrr_time :: rat
  qrr_i :: nat
  qrr_queue :: "qprocess list"
  qrr_gantt :: "qinterval list"
  qrr_remaining :: "string \<rightharpoonup> rat"
  qrr_finish_time :: "string \<rightharpoonup> rat"

definition qrr_body :: "rat \<Rightarrow> qprocess list \<Rightarrow> qrr_state \<Rightarrow> py_error + qrr_state" where
  "qrr_body quantum processes s =
     (let (i, queue) = qadmit processes (qrr_time s) (qrr_i s) (qrr_queue s)
      in if queue \<noteq> [] then
           (let p = hd queue;
                queue = tl queue
            in case qrr_remaining s (qpid p) of
                 None \<Rightarrow> Inl (KeyError (qpid p))
               | Some r \<Rightarrow>
                   (let exec_time = min quantum r;
                        start = qrr_time s;
                        finish = qrr_time s + exec_time;
                        gantt = qrr_gantt s @ [(qpid p, start, finish)];
                        remaining = (qrr_remaining s)(qpid p \<mapsto> r - exec_time);
                        time = finish
                    in if r - exec_time > 0 then
                         (let (i, queue) = qadmit processes time i queue
                          in Inr \<lparr>qrr_time = time, qrr_i = i, qrr_queue = queue @ [p],
                                  qrr_gantt = gantt, qrr_remaining = remaining,
                                  qrr_finish_time = qrr_finish_time s\<rparr>)
                       else Inr \<lparr>qrr_time = time, qrr_i = i, qrr_queue = queue,
                                 qrr_gantt = gantt, qrr_remaining = remaining,
                                 qrr_finish_time = (qrr_finish_time s)(qpid p \<mapsto> time)\<rparr>))
         else Inr (s\<lparr>qrr_time := qrr_time s + 1, qrr_i := i, qrr_queue := queue\<rparr>))"

definition qrr_cond :: "qprocess list \<Rightarrow> qrr_state \<Rightarrow> bool" where
  "qrr_cond processes s \<longleftrightarrow> qrr_i s < length processes \<or> qrr_queue s \<noteq> []"

partial_function (option) qrr_loop :: "rat \<Rightarrow> qprocess list \<Rightarrow> qrr_state \<Rightarrow> (py_error + qrr_state) option" where
  "qrr_loop quantum processes s =
     (if qrr_cond processes s then
        (case qrr_body quantum processes s of
           Inl e \<Rightarrow> Some (Inl e)
         | Inr s' \<Rightarrow> qrr_loop quantum processes s')
      else Some (Inr s))"

declare qrr_loop.simps [code]

definition qrr_remaining_init :: "qprocess list \<Rightarrow> (string \<rightharpoonup> rat)" where
  "qrr_remaining_init processes = fold (\<lambda>p m. m(qpid p \<mapsto> qburst p)) processes Map.empty"

fun qrr_metrics :: "qprocess list \<Rightarrow> (string \<rightharpoonup> rat) \<Rightarrow> qmetrics \<Rightarrow> qmetrics \<Rightarrow> py_error + qmetrics \<times> qmetrics" where
  "qrr_metrics [] finish_time waiting turnaround = Inr (waiting, turnaround)"
| "qrr_metrics (p # ps) finish_time waiting turnaround =
     (case finish_time (qpid p) of
        None \<Rightarrow> Inl (KeyError (qpid p))
      | Some f \<Rightarrow>
          (let turnaround = turnaround(qpid p \<mapsto> f - qarrival p);
               waiting = waiting(qpid p \<mapsto> f - qarrival p - qburst p)
           in qrr_metrics ps finish_time waiting turnaround))"

definition qrr_init :: "qprocess list \<Rightarrow> qrr_state" where
  "qrr_init processes = \<lparr>qrr_time = 0, qrr_i = 0, qrr_queue = [], qrr_gantt = [],
                          qrr_remaining = qrr_remaining_init processes,
                          qrr_finish_time = Map.empty\<rparr>"

definition qround_robin :: "qprocess list \<Rightarrow> rat \<Rightarrow> (py_error + qschedule_result) option" where
  "qround_robin processes quantum =
     (let processes = sort_key qarrival processes
      in case qrr_loop quantum processes (qrr_init processes) of
           None \<Rightarrow> None
         | Some (Inl e) \<Rightarrow> Some (Inl e)
         | Some (Inr s) \<Rightarrow>
             (case qrr_metrics processes (qrr_finish_time s) Map.empty Map.empty of
                Inl e \<Rightarrow> Some (Inl e)
              | Inr (waiting, turnaround) \<Rightarrow> Some (Inr (qrr_gantt s, waiting, turnaround))))"

text \<open>Valid input with integer arrivals: the ids differ, the bursts are positive, the
  arrivals are integers and not negative.\<close>

definition qvalid_processes :: "qprocess list \<Rightarrow> bool" where
  "qvalid_processes processes \<longleftrightarrow>
     distinct (map qpid processes) \<and>
     (\<forall>p \<in> set processes. 0 < qburst p \<and> 0 \<le> qarrival p \<and> qarrival p \<in> \<int>)"

text \<open>A valid input with integer arrivals and a burst of one half: P1 arrives at 0 and
  runs for 1/2, P2 arrives at 3 and runs for 1. Halves are exact as Python floats too.\<close>

definition fractional_processes :: "qprocess list" where
  "fractional_processes =
     [\<lparr>qpid = ''P1'', qburst = 1 / 2, qarrival = 0, qpriority = 1\<rparr>,
      \<lparr>qpid = ''P2'', qburst = 1, qarrival = 3, qpriority = 2\<rparr>]"

text \<open>The quantum is at least every burst.\<close>

definition qquantum_covers :: "rat \<Rightarrow> qprocess list \<Rightarrow> bool" where
  "qquantum_covers quantum processes \<longleftrightarrow> (\<forall>p \<in> set processes. qburst p \<le> quantum)"

section \<open>The vocabulary of the properties\<close>

text \<open>The time that the intervals of the process with id \<open>k\<close> cover in a timeline: the
  sum of \<open>finish - start\<close> over the intervals labelled \<open>k\<close>.\<close>

definition executed :: "string \<Rightarrow> interval list \<Rightarrow> int" where
  "executed k gantt =
     sum_list (map (\<lambda>(_, start, finish). finish - start) (filter (\<lambda>iv. fst iv = k) gantt))"

text \<open>A timeline is chronological when, of any two of its intervals, the one that comes
  first in the list starts no later than the other one starts and finishes no later than
  the other one starts.\<close>

definition chronological :: "interval list \<Rightarrow> bool" where
  "chronological gantt \<longleftrightarrow>
     sorted_wrt (\<lambda>(_, start1, finish1) (_, start2, finish2).
                   start1 \<le> start2 \<and> finish1 \<le> start2) gantt"

text \<open>The states in which the loop of \<open>sjf\<close> (key \<open>burst\<close>) or of
  \<open>priority_scheduling\<close> (key \<open>priority\<close>) evaluates its condition: the initial
  state, and the state after the body whenever the condition held. The same for the loop
  of \<open>round_robin\<close>.\<close>

inductive np_reach :: "(process \<Rightarrow> int) \<Rightarrow> process list \<Rightarrow> np_state \<Rightarrow> bool"
  for key :: "process \<Rightarrow> int" and P :: "process list" where
  np_reach_init: "np_reach key P np_init"
| np_reach_step: "np_reach key P s \<Longrightarrow> np_cond P s \<Longrightarrow> np_reach key P (np_body key P s)"

inductive rr_reach :: "int \<Rightarrow> process list \<Rightarrow> rr_state \<Rightarrow> bool"
  for q :: int and P :: "process list" where
  rr_reach_init: "rr_reach q P (rr_init P)"
| rr_reach_step: "rr_reach q P s \<Longrightarrow> rr_cond P s \<Longrightarrow> rr_body q P s = Inr s' \<Longrightarrow> rr_reach q P s'"

text \<open>The position of the first occurrence of \<open>x\<close> in a list (the length of the list when
  \<open>x\<close> does not occur): the input order of a process.\<close>

definition index_of :: "'a list \<Rightarrow> 'a \<Rightarrow> nat" where
  "index_of xs x = length (takeWhile (\<lambda>y. y \<noteq> x) xs)"

text \<open>The state of the loop of \<open>sjf\<close> on the example after the first iteration, in
  which P1 has run.\<close>

definition example_after_first :: np_state where
  "example_after_first =
     \<lparr>np_time = 5, np_i = 1, np_ready = [], np_gantt = [(''P1'', 0, 5)],
      np_waiting = [''P1'' \<mapsto> 0], np_turnaround = [''P1'' \<mapsto> 5]\<rparr>"

section \<open>Measures and invariants of the loops\<close>

text \<open>What the admission loop appends at time \<open>t\<close> from index \<open>i\<close>: the longest prefix
  of \<open>processes[i:]\<close> whose arrivals are at most \<open>t\<close>.\<close>

definition admitted :: "process list \<Rightarrow> int \<Rightarrow> nat \<Rightarrow> process list" where
  "admitted P t i = takeWhile (\<lambda>p. arrival p \<le> t) (drop i P)"

text \<open>The loop of \<open>sjf\<close> and \<open>priority_scheduling\<close> ends on every input: an iteration
  either runs a process, which is then neither waiting for admission nor ready, or it
  moves the clock one unit towards the next arrival.\<close>

definition np_measure :: "process list \<Rightarrow> (np_state \<times> np_state) set" where
  "np_measure P = inv_image (less_than <*lex*> less_than)
     (\<lambda>s. (length P - np_i s + length (np_ready s), nat (arrival (P ! np_i s) - np_time s)))"

text \<open>The loop of \<open>round_robin\<close> ends for every positive quantum: an iteration finishes
  a process, or takes a positive amount from the remaining bursts (read only at the ids
  of \<open>P\<close>, where \<open>remaining\<close> is defined), or moves the clock towards the next arrival.\<close>

definition rr_work :: "process list \<Rightarrow> (string \<rightharpoonup> int) \<Rightarrow> nat" where
  "rr_work P rem = (\<Sum>k \<in> pid ` set P. nat (the (rem k)))"

definition rr_measure :: "process list \<Rightarrow> (rr_state \<times> rr_state) set" where
  "rr_measure P = inv_image (less_than <*lex*> less_than <*lex*> less_than)
     (\<lambda>s. (length P - rr_i s + length (rr_queue s), rr_work P (rr_remaining s),
           nat (arrival (P ! rr_i s) - rr_time s)))"

text \<open>What keeps \<open>round_robin\<close> from a \<^verbatim>\<open>KeyError\<close> on any input: \<open>remaining\<close> has
  the id of every process, and a process that was admitted is in the queue or has a
  finish time.\<close>

definition rr_safe :: "process list \<Rightarrow> rr_state \<Rightarrow> bool" where
  "rr_safe P s \<longleftrightarrow>
     rr_i s \<le> length P \<and> set (rr_queue s) \<subseteq> set P \<and> pid ` set P \<subseteq> dom (rr_remaining s) \<and>
     (\<forall>p \<in> set (take (rr_i s) P). p \<in> set (rr_queue s) \<or> pid p \<in> dom (rr_finish_time s))"

text \<open>With a quantum that is not positive and positive bursts, the loop condition of
  \<open>round_robin\<close> holds forever.\<close>

definition rr_stuck :: "process list \<Rightarrow> rr_state \<Rightarrow> bool" where
  "rr_stuck P s \<longleftrightarrow>
     rr_cond P s \<and> set (rr_queue s) \<subseteq> set P \<and>
     (\<forall>p \<in> set P. \<exists>r. rr_remaining s (pid p) = Some r \<and> 0 < r)"

text \<open>The invariant of the schedules without preemption, for the multiset \<open>D\<close> of the
  processes that have run: each of them has one interval, which spans its burst, starts
  at or after its arrival and ends by the clock, and its two metrics are recorded.\<close>

definition interval_of :: "process \<Rightarrow> int \<Rightarrow> metrics \<Rightarrow> metrics \<Rightarrow> interval \<Rightarrow> bool" where
  "interval_of p time waiting turnaround iv \<longleftrightarrow>
     (case iv of (k, start, finish) \<Rightarrow>
        k = pid p \<and> finish = start + burst p \<and> start < finish \<and> arrival p \<le> start \<and>
        finish \<le> time \<and> waiting k = Some (start - arrival p) \<and>
        turnaround k = Some (finish - arrival p))"

definition sched_inv :: "process multiset \<Rightarrow> int \<Rightarrow> interval list \<Rightarrow> metrics \<Rightarrow> metrics \<Rightarrow> bool" where
  "sched_inv D time gantt waiting turnaround \<longleftrightarrow>
     image_mset pid D = mset (map fst gantt) \<and>
     (\<forall>iv \<in> set gantt. \<exists>p \<in># D. interval_of p time waiting turnaround iv) \<and>
     dom waiting = fst ` set gantt \<and> dom turnaround = fst ` set gantt \<and>
     chronological gantt"

definition np_inv :: "process list \<Rightarrow> np_state \<Rightarrow> bool" where
  "np_inv P s \<longleftrightarrow>
     np_i s \<le> length P \<and> (\<forall>p \<in> set (np_ready s). arrival p \<le> np_time s) \<and>
     (\<exists>D. D + mset (np_ready s) = mset (take (np_i s) P) \<and>
          sched_inv D (np_time s) (np_gantt s) (np_waiting s) (np_turnaround s))"

text \<open>The invariant of \<open>round_robin\<close> on valid input, for the list \<open>act\<close> of the processes
  that were admitted and have not finished (the queue, and the process that runs).\<close>

definition rr_core :: "process list \<Rightarrow> int \<Rightarrow> nat \<Rightarrow> process list \<Rightarrow> interval list \<Rightarrow>
    (string \<rightharpoonup> int) \<Rightarrow> (string \<rightharpoonup> int) \<Rightarrow> bool" where
  "rr_core P time i act gantt remaining finish_time \<longleftrightarrow>
     i \<le> length P \<and> distinct act \<and> set act \<subseteq> set (take i P) \<and>
     (\<forall>p \<in> set P. \<exists>r. remaining (pid p) = Some r \<and> 0 \<le> r \<and>
                         executed (pid p) gantt = burst p - r) \<and>
     (\<forall>p \<in> set act. \<exists>r. remaining (pid p) = Some r \<and> 0 < r \<and>
                           arrival p + (burst p - r) \<le> time) \<and>
     (\<forall>p \<in> set (drop i P). remaining (pid p) = Some (burst p)) \<and>
     (\<forall>p \<in> set (take i P). p \<in> set act \<or>
        (remaining (pid p) = Some 0 \<and>
         (\<exists>f. finish_time (pid p) = Some f \<and> arrival p + burst p \<le> f))) \<and>
     chronological gantt \<and> (\<forall>iv \<in> set gantt. fst (snd iv) < snd (snd iv) \<and> snd (snd iv) \<le> time)"

definition rr_inv :: "process list \<Rightarrow> rr_state \<Rightarrow> bool" where
  "rr_inv P s \<longleftrightarrow>
     rr_core P (rr_time s) (rr_i s) (rr_queue s) (rr_gantt s) (rr_remaining s) (rr_finish_time s)"

text \<open>The ready list of \<open>sjf\<close> and \<open>priority_scheduling\<close> is in the order by key and
  then by position in the sorted list of processes.\<close>

definition key_then_index :: "('a \<Rightarrow> int) \<Rightarrow> ('a \<Rightarrow> nat) \<Rightarrow> 'a \<Rightarrow> 'a \<Rightarrow> bool" where
  "key_then_index key idx x y \<longleftrightarrow> key x < key y \<or> (key x = key y \<and> idx x < idx y)"

definition np_ordered :: "(process \<Rightarrow> int) \<Rightarrow> process list \<Rightarrow> np_state \<Rightarrow> bool" where
  "np_ordered key P s \<longleftrightarrow>
     np_i s \<le> length P \<and> set (np_ready s) \<subseteq> set (take (np_i s) P) \<and>
     sorted_wrt (key_then_index key (index_of P)) (np_ready s)"

text \<open>The schedule of \<open>fcfs\<close> as a list of processes with their start and finish, and
  what \<open>fcfs\<close> and \<open>round_robin\<close> record from it; \<open>rr_fresh\<close> is the invariant of
  \<open>round_robin\<close> when no burst exceeds the quantum: no process of the queue or of the
  processes still to be admitted has run.\<close>

fun fcfs_plan :: "process list \<Rightarrow> int \<Rightarrow> (process \<times> int \<times> int) list" where
  "fcfs_plan [] time = []"
| "fcfs_plan (p # ps) time =
     (let start = (if time < arrival p then arrival p else time)
      in (p, start, start + burst p) # fcfs_plan ps (start + burst p))"

definition plan_gantt :: "(process \<times> int \<times> int) list \<Rightarrow> interval list" where
  "plan_gantt plan = map (\<lambda>(p, start, finish). (pid p, start, finish)) plan"

definition plan_waiting :: "(process \<times> int \<times> int) list \<Rightarrow> metrics \<Rightarrow> metrics" where
  "plan_waiting plan w = fold (\<lambda>(p, start, finish) m. m(pid p \<mapsto> start - arrival p)) plan w"

definition plan_turnaround :: "(process \<times> int \<times> int) list \<Rightarrow> metrics \<Rightarrow> metrics" where
  "plan_turnaround plan t = fold (\<lambda>(p, start, finish) m. m(pid p \<mapsto> finish - arrival p)) plan t"

definition plan_finish :: "(process \<times> int \<times> int) list \<Rightarrow> (string \<rightharpoonup> int) \<Rightarrow> (string \<rightharpoonup> int)" where
  "plan_finish plan m = fold (\<lambda>(p, start, finish) m. m(pid p \<mapsto> finish)) plan m"

definition rr_fresh :: "int \<Rightarrow> process list \<Rightarrow> rr_state \<Rightarrow> bool" where
  "rr_fresh q P s \<longleftrightarrow>
     distinct (map pid (rr_queue s @ drop (rr_i s) P)) \<and>
     (\<forall>x \<in> set (rr_queue s @ drop (rr_i s) P).
        rr_remaining s (pid x) = Some (burst x) \<and> 0 < burst x \<and> burst x \<le> q) \<and>
     (\<forall>x \<in> set (rr_queue s). arrival x \<le> rr_time s)"

section \<open>The loops return\<close>

lemma admit_eq:
  "admit P t i r =
     (i + length (takeWhile (\<lambda>p. arrival p \<le> t) (drop i P)),
      r @ takeWhile (\<lambda>p. arrival p \<le> t) (drop i P))"
proof (induction P t i r rule: admit.induct)
  case (1 P t i r)
  show ?case
  proof (cases "i < length P \<and> arrival (P ! i) \<le> t")
    case True
    then have d: "drop i P = P ! i # drop (Suc i) P"
      by (simp add: Cons_nth_drop_Suc)
    from True have "admit P t i r = admit P t (i + 1) (r @ [P ! i])"
      by (subst admit.simps) simp
    also have "\<dots> = (i + 1 + length (takeWhile (\<lambda>p. arrival p \<le> t) (drop (i + 1) P)),
      (r @ [P ! i]) @ takeWhile (\<lambda>p. arrival p \<le> t) (drop (i + 1) P))"
      using 1 True by simp
    finally show ?thesis using True d by simp
  next
    case False
    then have "admit P t i r = (i, r)"
      unfolding admit.simps [of P t i r] by (rule if_not_P)
    moreover have "takeWhile (\<lambda>p. arrival p \<le> t) (drop i P) = []"
    proof (cases "i < length P")
      case True
      with False have "\<not> arrival (P ! i) \<le> t" by simp
      moreover from True have "drop i P = P ! i # drop (Suc i) P"
        by (simp add: Cons_nth_drop_Suc)
      ultimately show ?thesis by simp
    next
      case False
      then show ?thesis by simp
    qed
    ultimately show ?thesis by simp
  qed
qed

lemma admit_admitted: "admit P t i r = (i + length (admitted P t i), r @ admitted P t i)"
  by (simp add: admit_eq admitted_def)

lemma admitted_le: "i \<le> length P \<Longrightarrow> i + length (admitted P t i) \<le> length P"
proof -
  assume "i \<le> length P"
  have "length (admitted P t i) \<le> length (drop i P)"
    unfolding admitted_def by (rule length_takeWhile_le)
  with \<open>i \<le> length P\<close> show ?thesis by simp
qed

lemma take_admitted: "take (i + length (admitted P t i)) P = take i P @ admitted P t i"
proof -
  have "take (length (admitted P t i)) (drop i P) = admitted P t i"
    unfolding admitted_def
    by (metis append_eq_conv_conj takeWhile_dropWhile_id)
  then show ?thesis by (simp add: take_add)
qed

lemma admitted_arrival: "p \<in> set (admitted P t i) \<Longrightarrow> arrival p \<le> t"
  unfolding admitted_def by (auto dest: set_takeWhileD)

lemma admitted_Nil_iff:
  "i < length P \<Longrightarrow> admitted P t i = [] \<longleftrightarrow> t < arrival (P ! i)"
  unfolding admitted_def by (simp add: Cons_nth_drop_Suc [symmetric] takeWhile_eq_Nil_iff hd_drop_conv_nth)

lemma np_loop_rule:
  assumes wf: "wf R"
    and step: "\<And>s. I s \<Longrightarrow> np_cond P s \<Longrightarrow> I (np_body key P s) \<and> (np_body key P s, s) \<in> R"
    and init: "I s"
  shows "\<exists>s'. np_loop key P s = Some s' \<and> I s' \<and> \<not> np_cond P s'"
  using wf init
proof (induction s rule: wf_induct_rule)
  case (less s)
  show ?case
  proof (cases "np_cond P s")
    case True
    with step less.prems have "I (np_body key P s)" "(np_body key P s, s) \<in> R" by auto
    with less.IH obtain s' where "np_loop key P (np_body key P s) = Some s'" "I s'" "\<not> np_cond P s'"
      by blast
    with True show ?thesis by (subst np_loop.simps) simp
  next
    case False
    with less.prems show ?thesis by (subst np_loop.simps) simp
  qed
qed

lemma rr_loop_rule:
  assumes wf: "wf R"
    and step: "\<And>s. I s \<Longrightarrow> rr_cond P s \<Longrightarrow> \<exists>s'. rr_body q P s = Inr s' \<and> I s' \<and> (s', s) \<in> R"
    and init: "I s"
  shows "\<exists>s'. rr_loop q P s = Some (Inr s') \<and> I s' \<and> \<not> rr_cond P s'"
  using wf init
proof (induction s rule: wf_induct_rule)
  case (less s)
  show ?case
  proof (cases "rr_cond P s")
    case True
    with step less.prems obtain s1 where s1: "rr_body q P s = Inr s1" "I s1" "(s1, s) \<in> R" by blast
    with less.IH obtain s' where "rr_loop q P s1 = Some (Inr s')" "I s'" "\<not> rr_cond P s'"
      by blast
    with True s1 show ?thesis by (subst rr_loop.simps) simp
  next
    case False
    with less.prems show ?thesis by (subst rr_loop.simps) simp
  qed
qed

lemma np_body_run:
  assumes "np_ready s @ admitted P (np_time s) (np_i s) \<noteq> []"
  shows "np_body key P s =
     (let ready = sort_key key (np_ready s @ admitted P (np_time s) (np_i s)); p = hd ready
      in \<lparr>np_time = np_time s + burst p, np_i = np_i s + length (admitted P (np_time s) (np_i s)),
          np_ready = tl ready,
          np_gantt = np_gantt s @ [(pid p, np_time s, np_time s + burst p)],
          np_waiting = (np_waiting s)(pid p \<mapsto> np_time s - arrival p),
          np_turnaround = (np_turnaround s)(pid p \<mapsto> np_time s + burst p - arrival p)\<rparr>)"
  using assms by (simp add: np_body_def admit_admitted Let_def)

lemma np_body_idle:
  assumes "np_ready s @ admitted P (np_time s) (np_i s) = []"
  shows "np_body key P s = s\<lparr>np_time := np_time s + 1\<rparr>"
  using assms by (simp add: np_body_def admit_admitted)

lemma wf_np_measure: "wf (np_measure P)"
  by (auto simp: np_measure_def)

lemma np_body_decreases:
  assumes i: "np_i s \<le> length P" and c: "np_cond P s"
  shows "np_i (np_body key P s) \<le> length P \<and> (np_body key P s, s) \<in> np_measure P"
proof (cases "np_ready s @ admitted P (np_time s) (np_i s) = []")
  case True
  then have r: "np_ready s = []" and a: "admitted P (np_time s) (np_i s) = []" by simp_all
  from c r have lt: "np_i s < length P" by (simp add: np_cond_def)
  with a have "np_time s < arrival (P ! np_i s)" by (simp add: admitted_Nil_iff)
  then show ?thesis using i by (simp add: np_body_idle [OF True] np_measure_def)
next
  case False
  let ?a = "admitted P (np_time s) (np_i s)"
  let ?r = "sort_key key (np_ready s @ ?a)"
  from False have pos: "0 < length (np_ready s) + length ?a" by (cases "np_ready s") auto
  have le: "np_i s + length ?a \<le> length P" using i by (rule admitted_le)
  have "(np_body key P s, s) \<in> np_measure P"
    unfolding np_measure_def np_body_run [OF False] Let_def
    by simp (use pos le in linarith)
  moreover have "np_i (np_body key P s) \<le> length P"
    using le by (simp add: np_body_run [OF False] Let_def)
  ultimately show ?thesis by simp
qed


lemma set_admitted: "set (admitted P t i) \<subseteq> set P"
proof
  fix x assume "x \<in> set (admitted P t i)"
  then have "x \<in> set (drop i P)"
    unfolding admitted_def by (rule set_takeWhileD [THEN conjunct1])
  then show "x \<in> set P" by (rule in_set_dropD)
qed

lemma rr_body_idle:
  assumes "rr_queue s @ admitted P (rr_time s) (rr_i s) = []"
  shows "rr_body q P s = Inr (s\<lparr>rr_time := rr_time s + 1\<rparr>)"
  using assms by (simp add: rr_body_def admit_admitted)

lemma rr_body_KeyError:
  assumes "rr_queue s @ admitted P (rr_time s) (rr_i s) = p # rest"
    and "rr_remaining s (pid p) = None"
  shows "rr_body q P s = Inl (KeyError (pid p))"
  using assms by (simp add: rr_body_def admit_admitted)

lemma rr_body_requeue:
  assumes "rr_queue s @ admitted P (rr_time s) (rr_i s) = p # rest"
    and "rr_remaining s (pid p) = Some r" and "0 < r - min q r"
  shows "rr_body q P s =
     Inr \<lparr>rr_time = rr_time s + min q r,
          rr_i = rr_i s + length (admitted P (rr_time s) (rr_i s)) +
                 length (admitted P (rr_time s + min q r)
                           (rr_i s + length (admitted P (rr_time s) (rr_i s)))),
          rr_queue = rest @ admitted P (rr_time s + min q r)
                           (rr_i s + length (admitted P (rr_time s) (rr_i s))) @ [p],
          rr_gantt = rr_gantt s @ [(pid p, rr_time s, rr_time s + min q r)],
          rr_remaining = (rr_remaining s)(pid p \<mapsto> r - min q r),
          rr_finish_time = rr_finish_time s\<rparr>"
  using assms by (simp add: rr_body_def admit_admitted Let_def)

lemma rr_body_finish:
  assumes "rr_queue s @ admitted P (rr_time s) (rr_i s) = p # rest"
    and "rr_remaining s (pid p) = Some r" and "\<not> 0 < r - min q r"
  shows "rr_body q P s =
     Inr \<lparr>rr_time = rr_time s + min q r,
          rr_i = rr_i s + length (admitted P (rr_time s) (rr_i s)),
          rr_queue = rest,
          rr_gantt = rr_gantt s @ [(pid p, rr_time s, rr_time s + min q r)],
          rr_remaining = (rr_remaining s)(pid p \<mapsto> r - min q r),
          rr_finish_time = (rr_finish_time s)(pid p \<mapsto> rr_time s + min q r)\<rparr>"
  using assms by (simp add: rr_body_def admit_admitted Let_def)

lemma wf_rr_measure: "wf (rr_measure P)"
  by (auto simp: rr_measure_def)

lemma rr_measure_first:
  "length P - rr_i s' + length (rr_queue s') < length P - rr_i s + length (rr_queue s)
   \<Longrightarrow> (s', s) \<in> rr_measure P"
  by (simp add: rr_measure_def)

lemma rr_measure_second:
  "length P - rr_i s' + length (rr_queue s') = length P - rr_i s + length (rr_queue s)
   \<Longrightarrow> rr_work P (rr_remaining s') < rr_work P (rr_remaining s)
   \<Longrightarrow> (s', s) \<in> rr_measure P"
  by (simp add: rr_measure_def)

lemma rr_work_decreases:
  assumes "p \<in> set P" and "rem (pid p) = Some r" and "0 < r'" and "r' < r"
  shows "rr_work P (rem(pid p \<mapsto> r')) < rr_work P rem"
  unfolding rr_work_def
proof (rule sum_strict_mono_ex1)
  show "finite (pid ` set P)" by simp
  show "\<forall>k\<in>pid ` set P. nat (the ((rem(pid p \<mapsto> r')) k)) \<le> nat (the (rem k))"
    using assms by auto
  show "\<exists>k\<in>pid ` set P. nat (the ((rem(pid p \<mapsto> r')) k)) < nat (the (rem k))"
    using assms by (intro bexI [of _ "pid p"]) auto
qed

lemma rr_body_safe:
  assumes q: "0 < q" and safe: "rr_safe P s" and c: "rr_cond P s"
  shows "\<exists>s'. rr_body q P s = Inr s' \<and> rr_safe P s' \<and> (s', s) \<in> rr_measure P"
proof (cases "rr_queue s @ admitted P (rr_time s) (rr_i s)")
  case Nil
  then have r: "rr_queue s = []" and a: "admitted P (rr_time s) (rr_i s) = []" by simp_all
  from c r have lt: "rr_i s < length P" by (simp add: rr_cond_def)
  with a have "rr_time s < arrival (P ! rr_i s)" by (simp add: admitted_Nil_iff)
  then show ?thesis using safe by (simp add: rr_body_idle [OF Nil] rr_measure_def rr_safe_def)
next
  case (Cons p rest)
  let ?a = "admitted P (rr_time s) (rr_i s)"
  let ?i1 = "rr_i s + length ?a"
  have i1: "?i1 \<le> length P" using safe by (simp add: rr_safe_def admitted_le)
  have take1: "take ?i1 P = take (rr_i s) P @ ?a" by (rule take_admitted)
  have len: "length (rr_queue s) + length ?a = Suc (length rest)"
    using Cons by (metis length_append length_Cons)
  have "set (p # rest) = set (rr_queue s) \<union> set ?a"
    by (metis Cons set_append)
  then have sub: "set (p # rest) \<subseteq> set P"
    using safe set_admitted [of P "rr_time s" "rr_i s"] by (simp only: rr_safe_def) blast
  then have pP: "p \<in> set P" by simp
  with safe obtain r where r: "rr_remaining s (pid p) = Some r" by (auto simp: rr_safe_def)
  have cover: "\<forall>x \<in> set (take ?i1 P). x = p \<or> x \<in> set rest \<or> pid x \<in> dom (rr_finish_time s)"
  proof
    fix x assume "x \<in> set (take ?i1 P)"
    then have "x \<in> set (take (rr_i s) P) \<or> x \<in> set ?a" by (simp add: take1)
    then have "x \<in> set (rr_queue s @ ?a) \<or> pid x \<in> dom (rr_finish_time s)"
      using safe by (auto simp: rr_safe_def)
    then show "x = p \<or> x \<in> set rest \<or> pid x \<in> dom (rr_finish_time s)"
      unfolding Cons by auto
  qed
  show ?thesis
  proof (cases "0 < r - min q r")
    case True
    let ?t = "rr_time s + min q r"
    let ?b = "admitted P ?t ?i1"
    have i2: "?i1 + length ?b \<le> length P" using i1 by (rule admitted_le)
    have take2: "take (?i1 + length ?b) P = take ?i1 P @ ?b" by (rule take_admitted)
    from True q have mq: "min q r = q" and rq: "0 < r - q" "r - q < r"
      by (auto simp: min_def split: if_splits)
    have w: "rr_work P ((rr_remaining s)(pid p \<mapsto> r - min q r)) < rr_work P (rr_remaining s)"
      unfolding mq using pP r rq by (rule rr_work_decreases)
    have m: "length P - (?i1 + length ?b) + length (rest @ ?b @ [p])
        = length P - rr_i s + length (rr_queue s)"
      using i2 len by simp
    have "(projr (rr_body q P s), s) \<in> rr_measure P"
      unfolding rr_body_requeue [OF Cons r True]
    proof (rule rr_measure_second)
      show "length P - rr_i (projr (Inr \<lparr>rr_time = ?t, rr_i = ?i1 + length ?b,
              rr_queue = rest @ ?b @ [p],
              rr_gantt = rr_gantt s @ [(pid p, rr_time s, ?t)],
              rr_remaining = (rr_remaining s)(pid p \<mapsto> r - min q r),
              rr_finish_time = rr_finish_time s\<rparr>)) +
            length (rr_queue (projr (Inr \<lparr>rr_time = ?t, rr_i = ?i1 + length ?b,
              rr_queue = rest @ ?b @ [p],
              rr_gantt = rr_gantt s @ [(pid p, rr_time s, ?t)],
              rr_remaining = (rr_remaining s)(pid p \<mapsto> r - min q r),
              rr_finish_time = rr_finish_time s\<rparr>))) =
            length P - rr_i s + length (rr_queue s)"
        using i2 len by simp
    qed (use w in simp)
    moreover have "rr_safe P (projr (rr_body q P s))"
    proof -
      have "set (rest @ ?b @ [p]) \<subseteq> set P"
        using sub set_admitted [of P ?t ?i1] by simp
      moreover have "pid ` set P \<subseteq> dom ((rr_remaining s)(pid p \<mapsto> r - min q r))"
        using safe by (auto simp: rr_safe_def)
      moreover have "\<forall>x \<in> set (take (?i1 + length ?b) P).
          x \<in> set (rest @ ?b @ [p]) \<or> pid x \<in> dom (rr_finish_time s)"
        unfolding take2 using cover by auto
      ultimately show ?thesis
        unfolding rr_body_requeue [OF Cons r True] rr_safe_def using i2 by simp
    qed
    ultimately show ?thesis by (simp add: rr_body_requeue [OF Cons r True])
  next
    case False
    have m: "length P - ?i1 + length rest < length P - rr_i s + length (rr_queue s)"
      using i1 len by linarith
    have "(projr (rr_body q P s), s) \<in> rr_measure P"
      unfolding rr_body_finish [OF Cons r False]
      by (rule rr_measure_first) (use i1 len in simp)
    moreover have "rr_safe P (projr (rr_body q P s))"
    proof -
      have "set rest \<subseteq> set P" using sub by simp
      moreover have "pid ` set P \<subseteq> dom ((rr_remaining s)(pid p \<mapsto> r - min q r))"
        using safe by (auto simp: rr_safe_def)
      moreover have "\<forall>x \<in> set (take ?i1 P).
          x \<in> set rest \<or> pid x \<in> dom ((rr_finish_time s)(pid p \<mapsto> rr_time s + min q r))"
        using cover by auto
      ultimately show ?thesis
        unfolding rr_body_finish [OF Cons r False] rr_safe_def using i1 by simp
    qed
    ultimately show ?thesis by (simp add: rr_body_finish [OF Cons r False])
  qed
qed


lemma dom_fold_remaining:
  "dom (fold (\<lambda>p m. m(pid p \<mapsto> burst p)) P m) = dom m \<union> pid ` set P"
  by (induction P arbitrary: m) auto

lemma dom_rr_remaining_init: "dom (rr_remaining_init P) = pid ` set P"
  by (simp add: rr_remaining_init_def dom_fold_remaining)

lemma rr_safe_init: "rr_safe P (rr_init P)"
  by (simp add: rr_safe_def rr_init_def dom_rr_remaining_init)

lemma rr_metrics_returns:
  "pid ` set P \<subseteq> dom F \<Longrightarrow> \<exists>w' t'. rr_metrics P F w t = Inr (w', t')"
proof (induction P arbitrary: w t)
  case Nil
  then show ?case by simp
next
  case (Cons p P)
  then obtain f where "F (pid p) = Some f" by auto
  with Cons show ?case by (simp add: Let_def)
qed





section \<open>A quantum that is not positive\<close>

lemma rr_body_stuck:
  assumes q: "q \<le> 0" and st: "rr_stuck P s"
  shows "\<exists>s'. rr_body q P s = Inr s' \<and> rr_stuck P s'"
proof (cases "rr_queue s @ admitted P (rr_time s) (rr_i s)")
  case Nil
  then have "rr_queue s = []" by simp
  with st show ?thesis by (simp add: rr_body_idle [OF Nil] rr_stuck_def rr_cond_def)
next
  case (Cons p rest)
  let ?a = "admitted P (rr_time s) (rr_i s)"
  have "set (p # rest) = set (rr_queue s) \<union> set ?a"
    by (metis Cons set_append)
  then have sub: "set (p # rest) \<subseteq> set P"
    using st set_admitted [of P "rr_time s" "rr_i s"] by (simp only: rr_stuck_def) blast
  then have pP: "p \<in> set P" by simp
  with st obtain r where r: "rr_remaining s (pid p) = Some r" "0 < r"
    by (auto simp: rr_stuck_def)
  with q have mq: "min q r = q" and pos: "0 < r - min q r" by (simp_all add: min_def)
  let ?b = "admitted P (rr_time s + min q r) (rr_i s + length ?a)"
  have "set (rest @ ?b @ [p]) \<subseteq> set P"
    using sub set_admitted [of P "rr_time s + min q r" "rr_i s + length ?a"] by simp
  moreover have "\<forall>x \<in> set P. \<exists>r'. ((rr_remaining s)(pid p \<mapsto> r - min q r)) (pid x) = Some r' \<and> 0 < r'"
    using st pos by (auto simp: rr_stuck_def)
  ultimately show ?thesis
    by (simp add: rr_body_requeue [OF Cons r(1) pos] rr_stuck_def rr_cond_def)
qed

lemma rr_loop_Some_not_stuck:
  assumes r: "rr_loop q P s = Some y"
  shows "\<not> (q \<le> 0 \<and> rr_stuck P s)"
proof (rule rr_loop.raw_induct [where P = "\<lambda>q P s y. \<not> (q \<le> 0 \<and> rr_stuck P s)", OF _ r])
  fix loop q P s y
  assume ih: "\<And>q P s y. loop q P s = Some y \<Longrightarrow> \<not> (q \<le> 0 \<and> rr_stuck P s)"
    and eq: "(if rr_cond P s
              then case rr_body q P s of Inl e \<Rightarrow> Some (Inl e) | Inr s' \<Rightarrow> loop q P s'
              else Some (Inr s)) = Some y"
  show "\<not> (q \<le> 0 \<and> rr_stuck P s)"
  proof
    assume a: "q \<le> 0 \<and> rr_stuck P s"
    then obtain s' where s': "rr_body q P s = Inr s'" "rr_stuck P s'"
      using rr_body_stuck by blast
    from a have "rr_cond P s" by (simp add: rr_stuck_def)
    with eq s' have "loop q P s' = Some y" by simp
    with ih a s'(2) show False by blast
  qed
qed

lemma rr_loop_diverges:
  assumes "q \<le> 0" and "rr_stuck P s"
  shows "rr_loop q P s = None"
  using assms rr_loop_Some_not_stuck [of q P s] by (cases "rr_loop q P s") auto

lemma fold_remaining_pos:
  assumes "\<forall>p \<in> set P. 0 < burst p" and "\<forall>k r. m k = Some r \<longrightarrow> 0 < r"
  shows "\<forall>k r. fold (\<lambda>p m. m(pid p \<mapsto> burst p)) P m k = Some r \<longrightarrow> 0 < r"
  using assms
proof (induction P arbitrary: m)
  case Nil
  then show ?case by simp
next
  case (Cons a P)
  have "\<forall>k r. (m(pid a \<mapsto> burst a)) k = Some r \<longrightarrow> 0 < r"
    using Cons.prems by auto
  with Cons.IH [of "m(pid a \<mapsto> burst a)"] Cons.prems(1) show ?case by simp
qed

lemma rr_stuck_init:
  assumes "\<forall>p \<in> set P. 0 < burst p" and "P \<noteq> []"
  shows "rr_stuck P (rr_init P)"
proof -
  have "\<forall>k r. rr_remaining_init P k = Some r \<longrightarrow> 0 < r"
    unfolding rr_remaining_init_def using assms(1) by (intro fold_remaining_pos) simp_all
  moreover have "\<forall>p \<in> set P. \<exists>r. rr_remaining_init P (pid p) = Some r"
    using dom_rr_remaining_init [of P] by blast
  ultimately have "\<forall>p \<in> set P. \<exists>r. rr_remaining_init P (pid p) = Some r \<and> 0 < r"
    by blast
  with assms(2) show ?thesis by (simp add: rr_stuck_def rr_cond_def rr_init_def)
qed

lemma valid_sorted:
  assumes "valid_processes ps"
  shows "\<forall>p \<in> set (sort_key arrival ps). 0 < burst p"
    and "distinct (map pid (sort_key arrival ps))"
    and "\<forall>p \<in> set (sort_key arrival ps). 0 \<le> arrival p"
proof -
  show "\<forall>p \<in> set (sort_key arrival ps). 0 < burst p"
    using assms by (simp add: valid_processes_def)
  show "\<forall>p \<in> set (sort_key arrival ps). 0 \<le> arrival p"
    using assms by (simp add: valid_processes_def)
  have "mset (map pid (sort_key arrival ps)) = mset (map pid ps)" by simp
  then show "distinct (map pid (sort_key arrival ps))"
    using assms by (metis valid_processes_def mset_eq_imp_distinct_iff)
qed

lemma round_robin_diverges:
  assumes "q \<le> 0" and "valid_processes ps" and "ps \<noteq> []"
  shows "round_robin ps q = None"
proof -
  let ?P = "sort_key arrival ps"
  have "?P \<noteq> []" using assms(3) by (metis length_0_conv length_sort)
  with valid_sorted(1) [OF assms(2)] have "rr_stuck ?P (rr_init ?P)" by (rule rr_stuck_init)
  with assms(1) have "rr_loop q ?P (rr_init ?P) = None" by (rule rr_loop_diverges)
  then show ?thesis by (simp add: round_robin_def)
qed

section \<open>Schedules without preemption\<close>

lemma sched_inv_empty: "sched_inv {#} time [] Map.empty Map.empty"
  by (simp add: sched_inv_def chronological_def)

lemma interval_of_later:
  assumes "interval_of p0 time w t iv" and "time \<le> time'"
  shows "interval_of p0 time' w t iv"
  using assms by (auto simp: interval_of_def)

lemma interval_of_upd:
  assumes "interval_of p0 time w t iv" and "pid p0 \<noteq> k"
  shows "interval_of p0 time (w(k \<mapsto> a)) (t(k \<mapsto> b)) iv"
  using assms by (auto simp: interval_of_def)

lemma sched_inv_later:
  assumes "sched_inv D time g w t" and "time \<le> time'"
  shows "sched_inv D time' g w t"
  using assms unfolding sched_inv_def by (meson interval_of_later)

lemma sched_inv_run:
  assumes inv: "sched_inv D time g w t"
    and fresh: "pid p \<notin> pid ` set_mset D"
    and bp: "0 < burst p" and ar: "arrival p \<le> st" and tm: "time \<le> st"
  shows "sched_inv (add_mset p D) (st + burst p) (g @ [(pid p, st, st + burst p)])
           (w(pid p \<mapsto> st - arrival p)) (t(pid p \<mapsto> st + burst p - arrival p))"
proof -
  let ?w = "w(pid p \<mapsto> st - arrival p)" and ?t = "t(pid p \<mapsto> st + burst p - arrival p)"
  let ?new = "(pid p, st, st + burst p)"
  have old: "\<exists>p0 \<in># D. interval_of p0 time w t iv" if "iv \<in> set g" for iv
    using inv that by (simp add: sched_inv_def)
  have 1: "image_mset pid (add_mset p D) = mset (map fst (g @ [?new]))"
    using inv by (simp add: sched_inv_def)
  have 2: "\<exists>p0 \<in># add_mset p D. interval_of p0 (st + burst p) ?w ?t iv"
    if "iv \<in> set (g @ [?new])" for iv
  proof (cases "iv = ?new")
    case True
    have "interval_of p (st + burst p) ?w ?t ?new"
      using bp ar by (simp add: interval_of_def)
    with True show ?thesis by auto
  next
    case False
    with that have "iv \<in> set g" by simp
    then obtain p0 where p0: "p0 \<in># D" "interval_of p0 time w t iv" using old by blast
    from p0(1) have "pid p0 \<in> pid ` set_mset D" by (rule imageI)
    with fresh have "pid p0 \<noteq> pid p" by metis
    have "time \<le> st + burst p" using tm bp by simp
    with p0(2) have "interval_of p0 (st + burst p) w t iv" by (rule interval_of_later)
    then have "interval_of p0 (st + burst p) ?w ?t iv"
      using \<open>pid p0 \<noteq> pid p\<close> by (rule interval_of_upd)
    with p0(1) show ?thesis by auto
  qed
  have 3: "dom ?w = fst ` set (g @ [?new])" "dom ?t = fst ` set (g @ [?new])"
    using inv by (auto simp: sched_inv_def)
  have "(case iv of (_, s1, f1) \<Rightarrow> \<lambda>(_, s2, f2). s1 \<le> s2 \<and> f1 \<le> s2) ?new"
    if "iv \<in> set g" for iv
  proof -
    from that obtain p0 where "interval_of p0 time w t iv" using old by blast
    with tm show ?thesis by (auto simp: interval_of_def split: prod.splits)
  qed
  then have 4: "chronological (g @ [?new])"
    using inv by (simp add: sched_inv_def chronological_def sorted_wrt_append)
  from 1 2 3 4 show ?thesis unfolding sched_inv_def by blast
qed

lemma fresh_from_distinct:
  assumes "distinct xs" and "mset xs = add_mset x M"
  shows "x \<notin># M"
proof
  assume "x \<in># M"
  then have "1 \<le> count M x" by simp
  then have "2 \<le> count (mset xs) x" by (simp add: assms(2))
  moreover have "count (mset xs) x \<le> 1" using assms(1) by (simp add: distinct_count_atmost_1)
  ultimately show False by simp
qed

lemma fcfs_loop_inv:
  assumes "sched_inv D time g w t" and "distinct (map pid ps)"
    and "pid ` set ps \<inter> pid ` set_mset D = {}" and "\<forall>p \<in> set ps. 0 < burst p"
  shows "\<exists>time'. case fcfs_loop ps time g w t of
                   (g', w', t') \<Rightarrow> sched_inv (D + mset ps) time' g' w' t'"
  using assms
proof (induction ps arbitrary: D time g w t)
  case Nil
  then show ?case by auto
next
  case (Cons p ps)
  let ?st = "if time < arrival p then arrival p else time"
  have fresh: "pid p \<notin> pid ` set_mset D" using Cons.prems(3) by auto
  have "sched_inv (add_mset p D) (?st + burst p) (g @ [(pid p, ?st, ?st + burst p)])
          (w(pid p \<mapsto> ?st - arrival p)) (t(pid p \<mapsto> ?st + burst p - arrival p))"
    using Cons.prems(1) fresh
  proof (rule sched_inv_run)
    show "0 < burst p" using Cons.prems(4) by simp
  qed simp_all
  moreover have "distinct (map pid ps)" using Cons.prems(2) by simp
  moreover have "pid ` set ps \<inter> pid ` set_mset (add_mset p D) = {}"
    using Cons.prems(2,3) by auto
  moreover have "\<forall>p \<in> set ps. 0 < burst p" using Cons.prems(4) by simp
  ultimately have "\<exists>time'. case fcfs_loop ps (?st + burst p) (g @ [(pid p, ?st, ?st + burst p)])
          (w(pid p \<mapsto> ?st - arrival p)) (t(pid p \<mapsto> ?st + burst p - arrival p)) of
        (g', w', t') \<Rightarrow> sched_inv (add_mset p D + mset ps) time' g' w' t'"
    by (rule Cons.IH)
  then show ?case by (simp add: Let_def)
qed

lemma fcfs_inv:
  assumes "distinct (map pid P)" and "\<forall>p \<in> set P. 0 < burst p"
  shows "\<exists>time'. case fcfs_loop P 0 [] Map.empty Map.empty of
                   (g', w', t') \<Rightarrow> sched_inv (mset P) time' g' w' t'"
  using fcfs_loop_inv [OF sched_inv_empty assms(1) _ assms(2), of 0] by simp

lemma np_inv_init: "np_inv P np_init"
  by (simp add: np_inv_def np_init_def sched_inv_empty)

lemma np_inv_body:
  assumes dist: "distinct (map pid P)" and pos: "\<forall>p \<in> set P. 0 < burst p"
    and inv: "np_inv P s"
  shows "np_inv P (np_body key P s)"
proof (cases "np_ready s @ admitted P (np_time s) (np_i s) = []")
  case True
  from inv obtain D where D: "D + mset (np_ready s) = mset (take (np_i s) P)"
    "sched_inv D (np_time s) (np_gantt s) (np_waiting s) (np_turnaround s)"
    by (auto simp: np_inv_def)
  from D(2) have "sched_inv D (np_time s + 1) (np_gantt s) (np_waiting s) (np_turnaround s)"
    by (rule sched_inv_later) simp
  with D(1) inv True show ?thesis
    by (auto simp: np_body_idle [OF True] np_inv_def)
next
  case False
  let ?a = "admitted P (np_time s) (np_i s)"
  let ?i1 = "np_i s + length ?a"
  let ?R = "np_ready s @ ?a"
  let ?S = "sort_key key ?R"
  from False have "?S \<noteq> []" by (metis length_0_conv length_sort)
  then obtain p rest where S: "?S = p # rest" by (cases ?S) auto
  have msetS: "mset ?R = add_mset p (mset rest)"
    using S by (metis mset.simps(2) mset_sort)
  then have setR: "set ?R = insert p (set rest)"
    by (metis set_mset_add_mset_insert set_mset_mset)
  from inv obtain D where D: "D + mset (np_ready s) = mset (take (np_i s) P)"
    "sched_inv D (np_time s) (np_gantt s) (np_waiting s) (np_turnaround s)"
    by (auto simp: np_inv_def)
  have i1: "?i1 \<le> length P" using inv by (simp add: np_inv_def admitted_le)
  have arr: "\<forall>x \<in> set ?R. arrival x \<le> np_time s"
    using inv admitted_arrival [of _ P "np_time s" "np_i s"] by (auto simp: np_inv_def)
  have DR: "D + mset ?R = mset (take ?i1 P)"
    using D(1) by (simp add: take_admitted)
  then have all: "add_mset p (D + mset rest) = mset (take ?i1 P)"
    using msetS by simp
  have pP: "p \<in> set P"
  proof -
    have "p \<in># mset (take ?i1 P)" unfolding all [symmetric] by simp
    then show ?thesis by (auto dest: in_set_takeD)
  qed
  have "distinct (map pid (take ?i1 P))" using dist by (simp add: distinct_take take_map [symmetric])
  moreover have "mset (map pid (take ?i1 P)) = add_mset (pid p) (image_mset pid (D + mset rest))"
    by (simp add: all [symmetric])
  ultimately have "pid p \<notin># image_mset pid (D + mset rest)" by (rule fresh_from_distinct)
  then have fresh: "pid p \<notin> pid ` set_mset D" by auto
  have run: "sched_inv (add_mset p D) (np_time s + burst p)
      (np_gantt s @ [(pid p, np_time s, np_time s + burst p)])
      ((np_waiting s)(pid p \<mapsto> np_time s - arrival p))
      ((np_turnaround s)(pid p \<mapsto> np_time s + burst p - arrival p))"
    using D(2) fresh
  proof (rule sched_inv_run)
    show "0 < burst p" using pos pP by simp
    show "arrival p \<le> np_time s" using arr setR by simp
  qed simp
  have body: "np_body key P s =
      \<lparr>np_time = np_time s + burst p, np_i = ?i1, np_ready = rest,
       np_gantt = np_gantt s @ [(pid p, np_time s, np_time s + burst p)],
       np_waiting = (np_waiting s)(pid p \<mapsto> np_time s - arrival p),
       np_turnaround = (np_turnaround s)(pid p \<mapsto> np_time s + burst p - arrival p)\<rparr>"
    using S by (simp add: np_body_run [OF False] Let_def)
  have D': "add_mset p D + mset rest = mset (take ?i1 P)" using all by simp
  have "\<forall>x \<in> set rest. arrival x \<le> np_time s + burst p"
  proof
    fix x assume "x \<in> set rest"
    with arr setR have "arrival x \<le> np_time s" by simp
    moreover have "0 < burst p" using pos pP by simp
    ultimately show "arrival x \<le> np_time s + burst p" by simp
  qed
  moreover have "\<exists>D'. D' + mset rest = mset (take ?i1 P) \<and>
      sched_inv D' (np_time s + burst p)
        (np_gantt s @ [(pid p, np_time s, np_time s + burst p)])
        ((np_waiting s)(pid p \<mapsto> np_time s - arrival p))
        ((np_turnaround s)(pid p \<mapsto> np_time s + burst p - arrival p))"
    using D' run by blast
  ultimately show ?thesis
    using i1 unfolding np_inv_def body by simp
qed

lemma np_reach_inv:
  assumes "distinct (map pid P)" and "\<forall>p \<in> set P. 0 < burst p" and "np_reach key P s"
  shows "np_inv P s"
  using assms(3)
proof (induction rule: np_reach.induct)
  case np_reach_init
  show ?case by (rule np_inv_init)
next
  case (np_reach_step s)
  with assms(1,2) show ?case by (intro np_inv_body)
qed

lemma np_reach_i: "np_reach key P s \<Longrightarrow> np_i s \<le> length P"
proof (induction rule: np_reach.induct)
  case np_reach_init
  show ?case by (simp add: np_init_def)
next
  case (np_reach_step s)
  then show ?case using np_body_decreases by blast
qed

lemma np_final:
  "\<exists>s'. np_loop key P np_init = Some s' \<and> np_reach key P s' \<and> \<not> np_cond P s'"
proof (rule np_loop_rule [where I = "np_reach key P" and R = "np_measure P"])
  show "wf (np_measure P)" by (rule wf_np_measure)
  show "np_reach key P np_init" by (rule np_reach_init)
next
  fix s assume "np_reach key P s" "np_cond P s"
  then show "np_reach key P (np_body key P s) \<and> (np_body key P s, s) \<in> np_measure P"
    using np_body_decreases np_reach_i np_reach_step by blast
qed

lemma np_final_inv:
  assumes "distinct (map pid P)" and "\<forall>p \<in> set P. 0 < burst p"
  shows "\<exists>s' time. np_loop key P np_init = Some s' \<and>
           sched_inv (mset P) time (np_gantt s') (np_waiting s') (np_turnaround s')"
proof -
  from np_final obtain s' where s': "np_loop key P np_init = Some s'" "np_reach key P s'"
    "\<not> np_cond P s'" by blast
  from assms s'(2) have "np_inv P s'" by (rule np_reach_inv)
  moreover from s'(3) have "np_ready s' = []" "length P \<le> np_i s'" by (auto simp: np_cond_def)
  ultimately have "sched_inv (mset P) (np_time s') (np_gantt s') (np_waiting s') (np_turnaround s')"
    by (auto simp: np_inv_def)
  with s'(1) show ?thesis by blast
qed

lemma filter_key_single:
  assumes "distinct (map f xs)" and "x \<in> set xs"
  shows "filter (\<lambda>y. f y = f x) xs = [x]"
  using assms
proof (induction xs)
  case Nil
  then show ?case by simp
next
  case (Cons a xs)
  show ?case
  proof (cases "a = x")
    case True
    with Cons.prems(1) have "f x \<notin> f ` set xs" by simp
    then have "\<forall>y \<in> set xs. f y \<noteq> f x" by (metis imageI)
    then have "filter (\<lambda>y. f y = f x) xs = []" by (simp add: filter_empty_conv)
    with True show ?thesis by simp
  next
    case False
    with Cons.prems have "x \<in> set xs" by simp
    from Cons.prems(1) have "f a \<notin> f ` set xs" by simp
    with \<open>x \<in> set xs\<close> have "f a \<noteq> f x" by (metis imageI)
    moreover have "filter (\<lambda>y. f y = f x) xs = [x]"
      using Cons.IH Cons.prems(1) \<open>x \<in> set xs\<close> by simp
    ultimately show ?thesis by simp
  qed
qed

lemma sched_inv_single:
  assumes inv: "sched_inv (mset ps) time g w t" and dist: "distinct (map pid ps)"
    and p: "p \<in> set ps"
  shows "\<exists>st. filter (\<lambda>iv. fst iv = pid p) g = [(pid p, st, st + burst p)] \<and>
              arrival p \<le> st \<and> w (pid p) = Some (st - arrival p) \<and>
              t (pid p) = Some (st - arrival p + burst p)"
proof -
  from inv have m: "mset (map fst g) = mset (map pid ps)" by (simp add: sched_inv_def)
  with dist have dg: "distinct (map fst g)" by (metis mset_eq_imp_distinct_iff)
  from m have "set (map fst g) = set (map pid ps)" by (rule mset_eq_setD)
  with p obtain iv where iv: "iv \<in> set g" "fst iv = pid p" by force
  have "filter (\<lambda>y. fst y = fst iv) g = [iv]" using dg iv(1) by (rule filter_key_single)
  then have f: "filter (\<lambda>y. fst y = pid p) g = [iv]" by (simp add: iv(2))
  from inv iv(1) obtain p0 where p0: "p0 \<in> set ps" "interval_of p0 time w t iv"
    by (auto simp: sched_inv_def)
  then have "pid p0 = pid p" using iv(2) by (auto simp: interval_of_def)
  with dist p p0(1) have "p0 = p" by (meson distinct_map inj_onD)
  with p0(2) have "interval_of p time w t iv" by simp
  then obtain st where "iv = (pid p, st, st + burst p)" "arrival p \<le> st"
    "w (pid p) = Some (st - arrival p)" "t (pid p) = Some (st + burst p - arrival p)"
    by (cases iv) (auto simp: interval_of_def)
  moreover have "st + burst p - arrival p = st - arrival p + burst p" by simp
  ultimately show ?thesis using f by auto
qed



lemma sched_inv_chronological: "sched_inv D time g w t \<Longrightarrow> chronological g"
  by (simp add: sched_inv_def)

lemma sched_inv_positive:
  assumes "sched_inv D time g w t" and "iv \<in> set g"
  shows "fst (snd iv) < snd (snd iv)"
proof -
  from assms obtain p where "interval_of p time w t iv" by (auto simp: sched_inv_def)
  then show ?thesis by (cases iv) (simp add: interval_of_def)
qed

lemma chronological_nth:
  assumes "chronological g" and "i < j" and "j < length g"
  shows "fst (snd (g ! i)) \<le> fst (snd (g ! j)) \<and> snd (snd (g ! i)) \<le> fst (snd (g ! j))"
proof -
  from assms have "(\<lambda>(_, s1, f1) (_, s2, f2). s1 \<le> s2 \<and> f1 \<le> s2) (g ! i) (g ! j)"
    unfolding chronological_def by (simp add: sorted_wrt_iff_nth_less)
  then show ?thesis by (simp add: case_prod_beta)
qed

lemma mset_sorted_processes: "mset (sort_key arrival ps) = mset ps"
  by simp

lemma fcfs_sched_inv:
  assumes "valid_processes ps"
  shows "\<exists>time. sched_inv (mset ps) time (fst (fcfs ps)) (fst (snd (fcfs ps))) (snd (snd (fcfs ps)))"
proof -
  let ?P = "sort_key arrival ps"
  from fcfs_inv [OF valid_sorted(2) valid_sorted(1), OF assms assms]
  obtain time where "case fcfs_loop ?P 0 [] Map.empty Map.empty of
      (g', w', t') \<Rightarrow> sched_inv (mset ?P) time g' w' t'" by (elim exE)
  then have "sched_inv (mset ps) time (fst (fcfs ps)) (fst (snd (fcfs ps))) (snd (snd (fcfs ps)))"
    by (simp add: fcfs_def case_prod_beta)
  then show ?thesis ..
qed

lemma np_sched_inv:
  assumes "valid_processes ps"
  shows "\<exists>g w t time. map_option np_result (np_loop key (sort_key arrival ps) np_init) = Some (g, w, t) \<and>
           sched_inv (mset ps) time g w t"
proof -
  let ?P = "sort_key arrival ps"
  from np_final_inv [OF valid_sorted(2) valid_sorted(1), OF assms assms, of key]
  obtain s' time where "np_loop key ?P np_init = Some s'"
    "sched_inv (mset ?P) time (np_gantt s') (np_waiting s') (np_turnaround s')" by blast
  then show ?thesis by (auto simp: np_result_def)
qed

section \<open>Round robin on valid input\<close>

lemma set_admitted_drop: "set (admitted P t i) \<subseteq> set (drop i P)"
  unfolding admitted_def by (auto dest: set_takeWhileD)

lemma distinct_admitted: "distinct P \<Longrightarrow> distinct (admitted P t i)"
  unfolding admitted_def by (simp add: distinct_takeWhile)

lemma rr_core_later:
  assumes "rr_core P t i act g rem fin" and "t \<le> t'"
  shows "rr_core P t' i act g rem fin"
proof -
  have "\<forall>p \<in> set act. \<exists>r. rem (pid p) = Some r \<and> 0 < r \<and> arrival p + (burst p - r) \<le> t'"
  proof
    fix p assume "p \<in> set act"
    with assms(1) obtain r where "rem (pid p) = Some r" "0 < r" "arrival p + (burst p - r) \<le> t"
      unfolding rr_core_def by blast
    with assms(2) show "\<exists>r. rem (pid p) = Some r \<and> 0 < r \<and> arrival p + (burst p - r) \<le> t'"
      by auto
  qed
  moreover have "\<forall>iv \<in> set g. fst (snd iv) < snd (snd iv) \<and> snd (snd iv) \<le> t'"
  proof
    fix iv assume "iv \<in> set g"
    with assms(1) have "fst (snd iv) < snd (snd iv) \<and> snd (snd iv) \<le> t"
      unfolding rr_core_def by blast
    with assms(2) show "fst (snd iv) < snd (snd iv) \<and> snd (snd iv) \<le> t'" by simp
  qed
  ultimately show ?thesis using assms(1) unfolding rr_core_def by simp
qed

lemma rr_core_perm:
  assumes "rr_core P t i act g rem fin" and "set act' = set act" and "distinct act'"
  shows "rr_core P t i act' g rem fin"
  using assms unfolding rr_core_def by simp

lemma rr_core_admit:
  assumes core: "rr_core P t i act g rem fin"
    and dist: "distinct (map pid P)" and pos: "\<forall>p \<in> set P. 0 < burst p"
  shows "rr_core P t (i + length (admitted P t i)) (act @ admitted P t i) g rem fin"
proof -
  let ?a = "admitted P t i"
  let ?i1 = "i + length ?a"
  from dist have dP: "distinct P" by (simp add: distinct_map)
  from core have i: "i \<le> length P" and da: "distinct act" and sub: "set act \<subseteq> set (take i P)"
    and unadm: "\<forall>p \<in> set (drop i P). rem (pid p) = Some (burst p)"
    by (simp_all add: rr_core_def)
  have tk: "take ?i1 P = take i P @ ?a" by (rule take_admitted)
  have 1: "?i1 \<le> length P" using i by (rule admitted_le)
  have "set (take i P) \<inter> set (drop i P) = {}"
    using dP by (simp add: set_take_disj_set_drop_if_distinct)
  then have "set act \<inter> set ?a = {}"
    using sub set_admitted_drop [of P t i] by blast
  then have 2: "distinct (act @ ?a)" using da dP by (simp add: distinct_admitted)
  have 3: "set (act @ ?a) \<subseteq> set (take ?i1 P)" using sub by (auto simp: tk)
  have 4: "\<forall>p \<in> set (act @ ?a). \<exists>r. rem (pid p) = Some r \<and> 0 < r \<and> arrival p + (burst p - r) \<le> t"
  proof
    fix p assume "p \<in> set (act @ ?a)"
    then consider "p \<in> set act" | "p \<in> set ?a" by auto
    then show "\<exists>r. rem (pid p) = Some r \<and> 0 < r \<and> arrival p + (burst p - r) \<le> t"
    proof cases
      case 1
      with core show ?thesis unfolding rr_core_def by blast
    next
      case 2
      then have "p \<in> set (drop i P)" using set_admitted_drop by blast
      then have "rem (pid p) = Some (burst p)" "p \<in> set P"
        using unadm by (auto dest: in_set_dropD)
      moreover have "arrival p \<le> t" using 2 by (rule admitted_arrival)
      ultimately show ?thesis using pos by auto
    qed
  qed
  have "set (drop ?i1 P) \<subseteq> set (drop i P)" by (simp add: set_drop_subset_set_drop)
  then have 5: "\<forall>p \<in> set (drop ?i1 P). rem (pid p) = Some (burst p)" using unadm by blast
  have 6: "\<forall>p \<in> set (take ?i1 P). p \<in> set (act @ ?a) \<or>
      (rem (pid p) = Some 0 \<and> (\<exists>f. fin (pid p) = Some f \<and> arrival p + burst p \<le> f))"
  proof
    fix p assume "p \<in> set (take ?i1 P)"
    then consider "p \<in> set (take i P)" | "p \<in> set ?a" by (auto simp: tk)
    then show "p \<in> set (act @ ?a) \<or>
      (rem (pid p) = Some 0 \<and> (\<exists>f. fin (pid p) = Some f \<and> arrival p + burst p \<le> f))"
    proof cases
      case 1
      with core have "p \<in> set act \<or>
        (rem (pid p) = Some 0 \<and> (\<exists>f. fin (pid p) = Some f \<and> arrival p + burst p \<le> f))"
        unfolding rr_core_def by blast
      then show ?thesis by auto
    next
      case 2
      then show ?thesis by simp
    qed
  qed
  from 1 2 3 4 5 6 core show ?thesis unfolding rr_core_def by blast
qed

lemma executed_append:
  "executed k (g @ [(k', s, f)]) = executed k g + (if k' = k then f - s else 0)"
  by (simp add: executed_def)

lemma chronological_append:
  assumes "chronological g" and "\<forall>iv \<in> set g. fst (snd iv) < snd (snd iv) \<and> snd (snd iv) \<le> t"
  shows "chronological (g @ [(k, t, f)])"
proof -
  have "(case iv of (_, s1, f1) \<Rightarrow> \<lambda>(_, s2, f2). s1 \<le> s2 \<and> f1 \<le> s2) (k, t, f)"
    if "iv \<in> set g" for iv
    using assms(2) that by (cases iv) auto
  with assms(1) show ?thesis by (simp add: chronological_def sorted_wrt_append)
qed

lemma rr_core_exec:
  assumes core: "rr_core P t i (p # rest) g rem fin"
    and dist: "distinct (map pid P)" and q: "0 < q" and r: "rem (pid p) = Some r"
  shows "0 < r - min q r \<Longrightarrow>
           rr_core P (t + min q r) i (p # rest) (g @ [(pid p, t, t + min q r)])
             (rem(pid p \<mapsto> r - min q r)) fin"
    and "\<not> 0 < r - min q r \<Longrightarrow>
           rr_core P (t + min q r) i rest (g @ [(pid p, t, t + min q r)])
             (rem(pid p \<mapsto> r - min q r)) (fin(pid p \<mapsto> t + min q r))"
proof -
  let ?e = "min q r"
  let ?g = "g @ [(pid p, t, t + ?e)]"
  let ?rem = "rem(pid p \<mapsto> r - ?e)"
  let ?fin = "fin(pid p \<mapsto> t + ?e)"
  from core have i: "i \<le> length P" and da: "distinct (p # rest)"
    and sub: "set (p # rest) \<subseteq> set (take i P)"
    and allP: "\<forall>x \<in> set P. \<exists>r. rem (pid x) = Some r \<and> 0 \<le> r \<and> executed (pid x) g = burst x - r"
    and act: "\<forall>x \<in> set (p # rest). \<exists>r. rem (pid x) = Some r \<and> 0 < r \<and> arrival x + (burst x - r) \<le> t"
    and unadm: "\<forall>x \<in> set (drop i P). rem (pid x) = Some (burst x)"
    and adm: "\<forall>x \<in> set (take i P). x \<in> set (p # rest) \<or>
        (rem (pid x) = Some 0 \<and> (\<exists>f. fin (pid x) = Some f \<and> arrival x + burst x \<le> f))"
    and chr: "chronological g"
    and ivs: "\<forall>iv \<in> set g. fst (snd iv) < snd (snd iv) \<and> snd (snd iv) \<le> t"
    unfolding rr_core_def by blast+
  from dist have dP: "distinct P" and inj: "inj_on pid (set P)" by (simp_all add: distinct_map)
  from sub have pT: "p \<in> set (take i P)" by simp
  then have pP: "p \<in> set P" by (rule in_set_takeD)
  from act r have rpos: "0 < r" and arr: "arrival p + (burst p - r) \<le> t" by auto
  from allP pP r have ex: "executed (pid p) g = burst p - r" by auto
  from q rpos have e: "0 < ?e" "?e \<le> r" by simp_all
  have other: "pid x \<noteq> pid p" if "x \<in> set P" "x \<noteq> p" for x
    using inj pP that by (auto dest: inj_onD)
  have A: "\<forall>x \<in> set P. \<exists>r'. ?rem (pid x) = Some r' \<and> 0 \<le> r' \<and> executed (pid x) ?g = burst x - r'"
  proof
    fix x assume x: "x \<in> set P"
    show "\<exists>r'. ?rem (pid x) = Some r' \<and> 0 \<le> r' \<and> executed (pid x) ?g = burst x - r'"
    proof (cases "x = p")
      case True
      with e ex show ?thesis by (simp add: executed_append)
    next
      case False
      with x have "pid x \<noteq> pid p" by (rule other)
      moreover from allP x obtain r' where "rem (pid x) = Some r'" "0 \<le> r'"
        "executed (pid x) g = burst x - r'" by blast
      ultimately show ?thesis by (simp add: executed_append)
    qed
  qed
  have B: "\<exists>r'. ?rem (pid x) = Some r' \<and> 0 < r' \<and> arrival x + (burst x - r') \<le> t + ?e"
    if "x \<in> set rest" for x
  proof -
    from that da have "x \<noteq> p" by auto
    moreover from that sub have "x \<in> set P" by (auto dest: in_set_takeD)
    ultimately have "pid x \<noteq> pid p" using other by blast
    moreover from act that obtain r' where "rem (pid x) = Some r'" "0 < r'"
      "arrival x + (burst x - r') \<le> t" by auto
    ultimately show ?thesis using e(1) by auto
  qed
  have C: "\<forall>x \<in> set (drop i P). ?rem (pid x) = Some (burst x)"
  proof
    fix x assume x: "x \<in> set (drop i P)"
    have "set (take i P) \<inter> set (drop i P) = {}"
      using dP by (simp add: set_take_disj_set_drop_if_distinct)
    with x pT have "x \<noteq> p" by auto
    moreover from x have "x \<in> set P" by (rule in_set_dropD)
    ultimately have "pid x \<noteq> pid p" using other by blast
    with unadm x show "?rem (pid x) = Some (burst x)" by simp
  qed
  have old: "?rem (pid x) = Some 0 \<and> (\<exists>f. F (pid x) = Some f \<and> arrival x + burst x \<le> f)"
    if "x \<in> set (take i P)" "x \<notin> set (p # rest)"
      and F: "\<And>k. k \<noteq> pid p \<Longrightarrow> F k = fin k" for x F
  proof -
    from that(1) have xP: "x \<in> set P" by (rule in_set_takeD)
    from that(2) have "x \<noteq> p" by auto
    with xP have "pid x \<noteq> pid p" by (rule other)
    moreover from adm that(1,2) have "rem (pid x) = Some 0"
      "\<exists>f. fin (pid x) = Some f \<and> arrival x + burst x \<le> f" by auto
    ultimately show ?thesis using F by simp
  qed
  have E: "chronological ?g" using chr ivs by (rule chronological_append)
  have G: "\<forall>iv \<in> set ?g. fst (snd iv) < snd (snd iv) \<and> snd (snd iv) \<le> t + ?e"
    using ivs e(1) by auto
  show "rr_core P (t + ?e) i (p # rest) ?g ?rem fin" if pos: "0 < r - ?e"
  proof -
    have "\<forall>x \<in> set (p # rest). \<exists>r'. ?rem (pid x) = Some r' \<and> 0 < r' \<and>
        arrival x + (burst x - r') \<le> t + ?e"
    proof
      fix x assume "x \<in> set (p # rest)"
      then consider "x = p" | "x \<in> set rest" by auto
      then show "\<exists>r'. ?rem (pid x) = Some r' \<and> 0 < r' \<and> arrival x + (burst x - r') \<le> t + ?e"
      proof cases
        case 1
        with pos arr show ?thesis by simp
      next
        case 2
        then show ?thesis by (rule B)
      qed
    qed
    moreover have "\<forall>x \<in> set (take i P). x \<in> set (p # rest) \<or>
        (?rem (pid x) = Some 0 \<and> (\<exists>f. fin (pid x) = Some f \<and> arrival x + burst x \<le> f))"
      using old [where F = fin] by blast
    ultimately show ?thesis
      using i da sub A C E G unfolding rr_core_def by blast
  qed
  show "rr_core P (t + ?e) i rest ?g ?rem ?fin" if npos: "\<not> 0 < r - ?e"
  proof -
    from npos e(2) have re: "r - ?e = 0" by simp
    have "\<forall>x \<in> set rest. \<exists>r'. ?rem (pid x) = Some r' \<and> 0 < r' \<and>
        arrival x + (burst x - r') \<le> t + ?e"
      using B by blast
    moreover have "\<forall>x \<in> set (take i P). x \<in> set rest \<or>
        (?rem (pid x) = Some 0 \<and> (\<exists>f. ?fin (pid x) = Some f \<and> arrival x + burst x \<le> f))"
    proof
      fix x assume x: "x \<in> set (take i P)"
      show "x \<in> set rest \<or>
        (?rem (pid x) = Some 0 \<and> (\<exists>f. ?fin (pid x) = Some f \<and> arrival x + burst x \<le> f))"
      proof (cases "x = p")
        case True
        from re arr have "arrival p + burst p \<le> t + ?e" by simp
        with True re show ?thesis by simp
      next
        case False
        show ?thesis
        proof (cases "x \<in> set rest")
          case True
          then show ?thesis by simp
        next
          case False
          with \<open>x \<noteq> p\<close> have "x \<notin> set (p # rest)" by simp
          with x have "?rem (pid x) = Some 0 \<and>
              (\<exists>f. ?fin (pid x) = Some f \<and> arrival x + burst x \<le> f)"
            by (rule old) simp
          then show ?thesis by simp
        qed
      qed
    qed
    moreover have "distinct rest" "set rest \<subseteq> set (take i P)" using da sub by simp_all
    ultimately show ?thesis
      using i A C E G unfolding rr_core_def by blast
  qed
qed

lemma rr_inv_body:
  assumes dist: "distinct (map pid P)" and pos: "\<forall>p \<in> set P. 0 < burst p" and q: "0 < q"
    and inv: "rr_inv P s"
  shows "\<exists>s'. rr_body q P s = Inr s' \<and> rr_inv P s'"
proof (cases "rr_queue s @ admitted P (rr_time s) (rr_i s)")
  case Nil
  from inv have "rr_core P (rr_time s + 1) (rr_i s) (rr_queue s) (rr_gantt s) (rr_remaining s)
      (rr_finish_time s)"
    unfolding rr_inv_def by (rule rr_core_later) simp
  then show ?thesis by (simp add: rr_body_idle [OF Nil] rr_inv_def)
next
  case (Cons p rest)
  let ?t = "rr_time s"
  let ?a = "admitted P ?t (rr_i s)"
  let ?i1 = "rr_i s + length ?a"
  from inv have "rr_core P ?t ?i1 (rr_queue s @ ?a) (rr_gantt s) (rr_remaining s) (rr_finish_time s)"
    unfolding rr_inv_def using dist pos by (rule rr_core_admit)
  then have c1: "rr_core P ?t ?i1 (p # rest) (rr_gantt s) (rr_remaining s) (rr_finish_time s)"
    by (simp only: Cons)
  then have "p \<in> set P" unfolding rr_core_def by (auto dest: in_set_takeD)
  with c1 obtain r where r: "rr_remaining s (pid p) = Some r" unfolding rr_core_def by blast
  let ?e = "min q r"
  let ?g = "rr_gantt s @ [(pid p, ?t, ?t + ?e)]"
  let ?rem = "(rr_remaining s)(pid p \<mapsto> r - ?e)"
  show ?thesis
  proof (cases "0 < r - ?e")
    case True
    let ?b = "admitted P (?t + ?e) ?i1"
    from c1 dist q r True
    have "rr_core P (?t + ?e) ?i1 (p # rest) ?g ?rem (rr_finish_time s)"
      by (rule rr_core_exec(1))
    then have c2: "rr_core P (?t + ?e) (?i1 + length ?b) ((p # rest) @ ?b) ?g ?rem (rr_finish_time s)"
      using dist pos by (rule rr_core_admit)
    then have "distinct ((p # rest) @ ?b)" by (simp add: rr_core_def)
    then have "distinct (rest @ ?b @ [p])" by auto
    moreover have "set (rest @ ?b @ [p]) = set ((p # rest) @ ?b)" by auto
    ultimately have "rr_core P (?t + ?e) (?i1 + length ?b) (rest @ ?b @ [p]) ?g ?rem (rr_finish_time s)"
      using c2 by (intro rr_core_perm [OF c2])
    then show ?thesis by (simp add: rr_body_requeue [OF Cons r True] rr_inv_def)
  next
    case False
    from c1 dist q r False
    have "rr_core P (?t + ?e) ?i1 rest ?g ?rem ((rr_finish_time s)(pid p \<mapsto> ?t + ?e))"
      by (rule rr_core_exec(2))
    then show ?thesis by (simp add: rr_body_finish [OF Cons r False] rr_inv_def)
  qed
qed

lemma fold_remaining_keep:
  "k \<notin> pid ` set P \<Longrightarrow> fold (\<lambda>p m. m(pid p \<mapsto> burst p)) P m k = m k"
  by (induction P arbitrary: m) auto

lemma fold_remaining_distinct:
  assumes "distinct (map pid P)" and "p \<in> set P"
  shows "fold (\<lambda>p m. m(pid p \<mapsto> burst p)) P m (pid p) = Some (burst p)"
  using assms
proof (induction P arbitrary: m)
  case Nil
  then show ?case by simp
next
  case (Cons a P)
  show ?case
  proof (cases "p \<in> set P")
    case True
    with Cons show ?thesis by simp
  next
    case False
    with Cons.prems have pa: "p = a" by simp
    from Cons.prems(1) have na: "pid a \<notin> pid ` set P" by simp
    have "fold (\<lambda>p m. m(pid p \<mapsto> burst p)) (a # P) m (pid a) =
        fold (\<lambda>p m. m(pid p \<mapsto> burst p)) P (m(pid a \<mapsto> burst a)) (pid a)"
      by simp
    also have "\<dots> = (m(pid a \<mapsto> burst a)) (pid a)"
      using na by (rule fold_remaining_keep)
    also have "\<dots> = Some (burst a)" by simp
    finally show ?thesis by (simp only: pa)
  qed
qed

lemma rr_inv_init:
  assumes dist: "distinct (map pid P)" and pos: "\<forall>p \<in> set P. 0 < burst p"
  shows "rr_inv P (rr_init P)"
proof -
  have "\<forall>p \<in> set P. rr_remaining_init P (pid p) = Some (burst p)"
    using dist by (simp add: rr_remaining_init_def fold_remaining_distinct)
  moreover have "\<forall>p \<in> set P. 0 \<le> burst p" using pos by auto
  ultimately show ?thesis
    by (simp add: rr_inv_def rr_init_def rr_core_def executed_def chronological_def)
qed

lemma rr_reach_inv:
  assumes "distinct (map pid P)" and "\<forall>p \<in> set P. 0 < burst p" and "0 < q"
    and "rr_reach q P s"
  shows "rr_inv P s"
  using assms(4)
proof (induction rule: rr_reach.induct)
  case rr_reach_init
  from assms(1,2) show ?case by (rule rr_inv_init)
next
  case (rr_reach_step s s')
  from rr_inv_body [OF assms(1,2,3) rr_reach_step.IH] rr_reach_step.hyps(3)
  show ?case by auto
qed

lemma rr_final:
  assumes "0 < q"
  shows "\<exists>s'. rr_loop q P (rr_init P) = Some (Inr s') \<and> rr_reach q P s' \<and> \<not> rr_cond P s'"
proof -
  have "\<exists>s'. rr_loop q P (rr_init P) = Some (Inr s') \<and> (rr_safe P s' \<and> rr_reach q P s') \<and>
      \<not> rr_cond P s'"
  proof (rule rr_loop_rule [where R = "rr_measure P"])
    show "wf (rr_measure P)" by (rule wf_rr_measure)
    show "rr_safe P (rr_init P) \<and> rr_reach q P (rr_init P)"
      using rr_safe_init rr_reach_init by simp
  next
    fix s assume s: "rr_safe P s \<and> rr_reach q P s" "rr_cond P s"
    with assms obtain s' where s': "rr_body q P s = Inr s'" "rr_safe P s'" "(s', s) \<in> rr_measure P"
      using rr_body_safe by blast
    with s have "rr_reach q P s'" using rr_reach_step by blast
    with s' show "\<exists>s'. rr_body q P s = Inr s' \<and> (rr_safe P s' \<and> rr_reach q P s') \<and>
        (s', s) \<in> rr_measure P" by blast
  qed
  then show ?thesis by blast
qed

lemma rr_metrics_dom:
  "rr_metrics P F w t = Inr (w', t') \<Longrightarrow>
     dom w' = dom w \<union> pid ` set P \<and> dom t' = dom t \<union> pid ` set P"
proof (induction P arbitrary: w t)
  case Nil
  then show ?case by simp
next
  case (Cons a P)
  from Cons.prems obtain fa where fa: "F (pid a) = Some fa"
    by (cases "F (pid a)") simp_all
  with Cons.prems have "rr_metrics P F (w(pid a \<mapsto> fa - arrival a - burst a))
      (t(pid a \<mapsto> fa - arrival a)) = Inr (w', t')" by (simp add: Let_def)
  from Cons.IH [OF this] show ?case by auto
qed

lemma rr_metrics_keep:
  "rr_metrics P F w t = Inr (w', t') \<Longrightarrow> k \<notin> pid ` set P \<Longrightarrow> w' k = w k \<and> t' k = t k"
proof (induction P arbitrary: w t)
  case Nil
  then show ?case by simp
next
  case (Cons a P)
  from Cons.prems(1) obtain fa where fa: "F (pid a) = Some fa"
    by (cases "F (pid a)") simp_all
  with Cons.prems(1) have "rr_metrics P F (w(pid a \<mapsto> fa - arrival a - burst a))
      (t(pid a \<mapsto> fa - arrival a)) = Inr (w', t')" by (simp add: Let_def)
  moreover from Cons.prems(2) have "k \<notin> pid ` set P" "k \<noteq> pid a" by auto
  ultimately show ?case using Cons.IH by fastforce
qed

lemma rr_metrics_val:
  "distinct (map pid P) \<Longrightarrow> rr_metrics P F w t = Inr (w', t') \<Longrightarrow> p \<in> set P \<Longrightarrow>
   F (pid p) = Some f \<Longrightarrow>
   w' (pid p) = Some (f - arrival p - burst p) \<and> t' (pid p) = Some (f - arrival p)"
proof (induction P arbitrary: w t)
  case Nil
  then show ?case by simp
next
  case (Cons a P)
  from Cons.prems(2) obtain fa where fa: "F (pid a) = Some fa"
    by (cases "F (pid a)") simp_all
  with Cons.prems(2) have rec: "rr_metrics P F (w(pid a \<mapsto> fa - arrival a - burst a))
      (t(pid a \<mapsto> fa - arrival a)) = Inr (w', t')" by (simp add: Let_def)
  show ?case
  proof (cases "p \<in> set P")
    case True
    from Cons.prems(1) have "distinct (map pid P)" by simp
    from Cons.IH [OF this rec True Cons.prems(4)] show ?thesis .
  next
    case False
    with Cons.prems(3) have pa: "p = a" by simp
    from Cons.prems(1) have "pid a \<notin> pid ` set P" by simp
    with rec have "w' (pid a) = (w(pid a \<mapsto> fa - arrival a - burst a)) (pid a) \<and>
        t' (pid a) = (t(pid a \<mapsto> fa - arrival a)) (pid a)" by (rule rr_metrics_keep)
    with fa Cons.prems(4) show ?thesis by (simp add: pa)
  qed
qed

lemma rr_inv_final:
  assumes "rr_inv P s" and "\<not> rr_cond P s" and "p \<in> set P"
  shows "executed (pid p) (rr_gantt s) = burst p"
    and "\<exists>f. rr_finish_time s (pid p) = Some f \<and> arrival p + burst p \<le> f"
proof -
  from assms(2) have q: "rr_queue s = []" and i: "length P \<le> rr_i s" by (auto simp: rr_cond_def)
  from assms(1) have "\<forall>p \<in> set (take (rr_i s) P). p \<in> set (rr_queue s) \<or>
      (rr_remaining s (pid p) = Some 0 \<and>
       (\<exists>f. rr_finish_time s (pid p) = Some f \<and> arrival p + burst p \<le> f))"
    unfolding rr_inv_def rr_core_def by blast
  with q i assms(3) have fin: "rr_remaining s (pid p) = Some 0"
    "\<exists>f. rr_finish_time s (pid p) = Some f \<and> arrival p + burst p \<le> f" by auto
  from assms(1,3) obtain r where "rr_remaining s (pid p) = Some r"
    "executed (pid p) (rr_gantt s) = burst p - r"
    unfolding rr_inv_def rr_core_def by blast
  with fin(1) show "executed (pid p) (rr_gantt s) = burst p" by simp
  from fin(2) show "\<exists>f. rr_finish_time s (pid p) = Some f \<and> arrival p + burst p \<le> f" .
qed

lemma round_robin_result:
  assumes v: "valid_processes ps" and q: "0 < q"
  obtains g w t where "round_robin ps q = Some (Inr (g, w, t))"
    and "chronological g \<and> (\<forall>iv \<in> set g. fst (snd iv) < snd (snd iv))"
    and "\<forall>p \<in> set ps. executed (pid p) g = burst p"
    and "dom w = pid ` set ps \<and> dom t = pid ` set ps \<and>
         (\<forall>p \<in> set ps. \<exists>wt. w (pid p) = Some wt \<and> 0 \<le> wt \<and> t (pid p) = Some (wt + burst p))"
proof -
  let ?P = "sort_key arrival ps"
  note dist = valid_sorted(2) [OF v] and pos = valid_sorted(1) [OF v]
  from rr_final [OF q, of ?P] obtain s where s: "rr_loop q ?P (rr_init ?P) = Some (Inr s)"
    "rr_reach q ?P s" "\<not> rr_cond ?P s" by blast
  from dist pos q s(2) have inv: "rr_inv ?P s" by (rule rr_reach_inv)
  have fin: "\<exists>f. rr_finish_time s (pid p) = Some f \<and> arrival p + burst p \<le> f"
    if "p \<in> set ?P" for p using inv s(3) that by (rule rr_inv_final(2))
  then have "pid ` set ?P \<subseteq> dom (rr_finish_time s)" by auto
  then obtain w t where m: "rr_metrics ?P (rr_finish_time s) Map.empty Map.empty = Inr (w, t)"
    using rr_metrics_returns by blast
  from rr_metrics_dom [OF m] have dw: "dom w = pid ` set ?P" and dt: "dom t = pid ` set ?P"
    by simp_all
  have 1: "round_robin ps q = Some (Inr (rr_gantt s, w, t))"
    using s(1) m by (simp add: round_robin_def Let_def)
  have "chronological (rr_gantt s)" using inv unfolding rr_inv_def rr_core_def by blast
  moreover have "\<forall>iv \<in> set (rr_gantt s). fst (snd iv) < snd (snd iv)"
    using inv unfolding rr_inv_def rr_core_def by blast
  ultimately have 2: "chronological (rr_gantt s) \<and>
      (\<forall>iv \<in> set (rr_gantt s). fst (snd iv) < snd (snd iv))" ..
  have 3: "\<forall>p \<in> set ps. executed (pid p) (rr_gantt s) = burst p"
    using rr_inv_final(1) [OF inv s(3)] by simp
  have 4: "dom w = pid ` set ps \<and> dom t = pid ` set ps" using dw dt by simp
  have 5: "\<forall>p \<in> set ps. \<exists>wt. w (pid p) = Some wt \<and> 0 \<le> wt \<and> t (pid p) = Some (wt + burst p)"
  proof
    fix p assume "p \<in> set ps"
    then have p: "p \<in> set ?P" by simp
    with fin obtain f where f: "rr_finish_time s (pid p) = Some f" "arrival p + burst p \<le> f"
      by blast
    from rr_metrics_val [OF dist m p f(1)]
    have "w (pid p) = Some (f - arrival p - burst p)" "t (pid p) = Some (f - arrival p)"
      by simp_all
    with f(2) show "\<exists>wt. w (pid p) = Some wt \<and> 0 \<le> wt \<and> t (pid p) = Some (wt + burst p)"
      by simp
  qed
  from 4 5 have 6: "dom w = pid ` set ps \<and> dom t = pid ` set ps \<and>
      (\<forall>p \<in> set ps. \<exists>wt. w (pid p) = Some wt \<and> 0 \<le> wt \<and> t (pid p) = Some (wt + burst p))"
    by (intro conjI) simp_all
  from 1 2 3 6 show ?thesis by (rule that)
qed

section \<open>Results on valid input\<close>


lemma sched_inv_once:
  assumes "sched_inv (mset ps) time g w t" and "distinct (map pid ps)" and "p \<in> set ps"
  shows "\<exists>st. arrival p \<le> st \<and> filter (\<lambda>iv. fst iv = pid p) g = [(pid p, st, st + burst p)]"
  using sched_inv_single [OF assms] by blast

lemma sched_inv_ordered:
  assumes "sched_inv D time g w t"
  shows "chronological g \<and> (\<forall>iv \<in> set g. fst (snd iv) < snd (snd iv))"
  using assms sched_inv_positive sched_inv_chronological by blast

lemma fcfs_result:
  assumes "valid_processes ps"
  obtains g w t time where "fcfs ps = (g, w, t)" and "sched_inv (mset ps) time g w t"
proof -
  from fcfs_sched_inv [OF assms] obtain time where
    "sched_inv (mset ps) time (fst (fcfs ps)) (fst (snd (fcfs ps))) (snd (snd (fcfs ps)))" ..
  moreover have "fcfs ps = (fst (fcfs ps), fst (snd (fcfs ps)), snd (snd (fcfs ps)))" by simp
  ultimately show ?thesis by (rule that [rotated])
qed

lemma sjf_result:
  assumes "valid_processes ps"
  obtains g w t time where "sjf ps = Some (g, w, t)" and "sched_inv (mset ps) time g w t"
  using np_sched_inv [OF assms, of burst] unfolding sjf_def by blast

lemma priority_result:
  assumes "valid_processes ps"
  obtains g w t time where "priority_scheduling ps = Some (g, w, t)"
    and "sched_inv (mset ps) time g w t"
  using np_sched_inv [OF assms, of priority] unfolding priority_scheduling_def by blast

lemma valid_distinct: "valid_processes ps \<Longrightarrow> distinct (map pid ps)"
  by (simp add: valid_processes_def)

section \<open>The worked example\<close>

text \<open>
  C1 (as stated in the specification, refuted): with quantum 2 the timeline of the example
  would be P1:[0,2), P2:[2,4), P1:[4,6), P3:[6,8), P2:[8,9), P1:[9,10), P3:[10,12),
  P3:[12,16). The timeline that \<open>round_robin\<close> returns is another one: at time 2, P2 and
  P3 are admitted before P1 is appended again, so P3 runs third.
\<close>

theorem round_robin_example_counterexample:
  "map_option (map_sum id fst) (round_robin example_processes 2) \<noteq>
     Some (Inr [(''P1'', 0, 2), (''P2'', 2, 4), (''P1'', 4, 6), (''P3'', 6, 8), (''P2'', 8, 9),
                (''P1'', 9, 10), (''P3'', 10, 12), (''P3'', 12, 16)])"
  by (simp add: round_robin_def example_processes_def rr_init_def rr_remaining_init_def
      rr_loop.simps rr_cond_def rr_body_def admit.simps Let_def)

text \<open>
  C1 (amended): on the example process set with quantum 2, \<open>round_robin\<close> returns the
  timeline P1:[0,2), P2:[2,4), P3:[4,6), P1:[6,8), P2:[8,9), P3:[9,11), P1:[11,12),
  P3:[12,14), P3:[14,16), the waiting times P1:7, P2:5, P3:6 and the turnaround times
  P1:12, P2:8, P3:14.
\<close>

theorem round_robin_example:
  "round_robin example_processes 2 =
     Some (Inr ([(''P1'', 0, 2), (''P2'', 2, 4), (''P3'', 4, 6), (''P1'', 6, 8), (''P2'', 8, 9),
                 (''P3'', 9, 11), (''P1'', 11, 12), (''P3'', 12, 14), (''P3'', 14, 16)],
                [''P1'' \<mapsto> 7, ''P2'' \<mapsto> 5, ''P3'' \<mapsto> 6],
                [''P1'' \<mapsto> 12, ''P2'' \<mapsto> 8, ''P3'' \<mapsto> 14]))"
  by (simp add: round_robin_def example_processes_def rr_init_def rr_remaining_init_def
      rr_loop.simps rr_cond_def rr_body_def admit.simps Let_def)

section \<open>No validation of the input\<close>




text \<open>
  C3 (as stated in the specification, refuted): with a quantum that is not positive
  \<open>round_robin\<close> would fail with a validation error and would not diverge. On the
  example process set with quantum 0 it neither returns nor raises: every slice has
  length 0 and no remaining burst ever decreases.
\<close>

theorem quantum_counterexample: "round_robin example_processes 0 = None"
  by (rule round_robin_diverges) (simp_all add: valid_processes_def example_processes_def)

text \<open>
  C3 (amended): \<open>round_robin\<close> does not check the quantum. For every quantum that is
  not positive it returns the empty schedule result on the empty collection, and on
  every valid collection that is not empty it never returns (and raises nothing).
\<close>

theorem quantum_not_checked:
  assumes "quantum \<le> 0"
  shows "round_robin [] quantum = Some (Inr ([], Map.empty, Map.empty)) \<and>
         (valid_processes processes \<and> processes \<noteq> [] \<longrightarrow> round_robin processes quantum = None)"
proof -
  have "round_robin [] quantum = Some (Inr ([], Map.empty, Map.empty))"
    by (simp add: round_robin_def rr_loop.simps rr_cond_def rr_init_def)
  with assms show ?thesis by (simp add: round_robin_diverges)
qed

theorem quantum_not_checked_witness:
  "(0::int) \<le> 0 \<and> round_robin [] 0 = Some (Inr ([], Map.empty, Map.empty)) \<and>
   valid_processes example_processes \<and> example_processes \<noteq> [] \<and>
   round_robin example_processes 0 = None"
proof -
  have v: "valid_processes example_processes \<and> example_processes \<noteq> []"
    by (simp add: valid_processes_def example_processes_def)
  with quantum_not_checked [of 0 example_processes] show ?thesis by simp
qed

section \<open>Properties of the schedules of valid input\<close>



text \<open>
  C6 (non-overlap and chronological order): for every valid input and every positive
  quantum, the timeline returned by each of the four functions is chronological: of any
  two of its intervals the earlier one in the list starts no later than the other one
  starts and finishes no later than the other one starts. Every interval has a positive
  length, so no two intervals overlap.
\<close>

theorem non_overlap:
  assumes "valid_processes processes" and "0 < quantum"
  shows "(\<exists>g w t. fcfs processes = (g, w, t) \<and>
            chronological g \<and> (\<forall>iv \<in> set g. fst (snd iv) < snd (snd iv))) \<and>
         (\<exists>g w t. sjf processes = Some (g, w, t) \<and>
            chronological g \<and> (\<forall>iv \<in> set g. fst (snd iv) < snd (snd iv))) \<and>
         (\<exists>g w t. priority_scheduling processes = Some (g, w, t) \<and>
            chronological g \<and> (\<forall>iv \<in> set g. fst (snd iv) < snd (snd iv))) \<and>
         (\<exists>g w t. round_robin processes quantum = Some (Inr (g, w, t)) \<and>
            chronological g \<and> (\<forall>iv \<in> set g. fst (snd iv) < snd (snd iv)))"
proof -
  have "\<exists>g w t. fcfs processes = (g, w, t) \<and>
      chronological g \<and> (\<forall>iv \<in> set g. fst (snd iv) < snd (snd iv))"
  proof -
    from assms(1) obtain g w t time where r: "fcfs processes = (g, w, t)"
      and inv: "sched_inv (mset processes) time g w t" by (rule fcfs_result)
    from inv have "chronological g \<and> (\<forall>iv \<in> set g. fst (snd iv) < snd (snd iv))"
      by (rule sched_inv_ordered)
    with r show ?thesis by blast
  qed
  moreover have "\<exists>g w t. sjf processes = Some (g, w, t) \<and>
      chronological g \<and> (\<forall>iv \<in> set g. fst (snd iv) < snd (snd iv))"
  proof -
    from assms(1) obtain g w t time where r: "sjf processes = Some (g, w, t)"
      and inv: "sched_inv (mset processes) time g w t" by (rule sjf_result)
    from inv have "chronological g \<and> (\<forall>iv \<in> set g. fst (snd iv) < snd (snd iv))"
      by (rule sched_inv_ordered)
    with r show ?thesis by blast
  qed
  moreover have "\<exists>g w t. priority_scheduling processes = Some (g, w, t) \<and>
      chronological g \<and> (\<forall>iv \<in> set g. fst (snd iv) < snd (snd iv))"
  proof -
    from assms(1) obtain g w t time where r: "priority_scheduling processes = Some (g, w, t)"
      and inv: "sched_inv (mset processes) time g w t" by (rule priority_result)
    from inv have "chronological g \<and> (\<forall>iv \<in> set g. fst (snd iv) < snd (snd iv))"
      by (rule sched_inv_ordered)
    with r show ?thesis by blast
  qed
  moreover have "\<exists>g w t. round_robin processes quantum = Some (Inr (g, w, t)) \<and>
      chronological g \<and> (\<forall>iv \<in> set g. fst (snd iv) < snd (snd iv))"
  proof -
    from assms obtain g w t where r: "round_robin processes quantum = Some (Inr (g, w, t))"
      and c: "chronological g \<and> (\<forall>iv \<in> set g. fst (snd iv) < snd (snd iv))"
      by (rule round_robin_result)
    then show ?thesis by blast
  qed
  ultimately show ?thesis by (intro conjI)
qed

theorem non_overlap_witness:
  "valid_processes example_processes \<and> (0::int) < 2 \<and>
   (\<exists>g w t. fcfs example_processes = (g, w, t) \<and>
      chronological g \<and> (\<forall>iv \<in> set g. fst (snd iv) < snd (snd iv))) \<and>
   (\<exists>g w t. sjf example_processes = Some (g, w, t) \<and>
      chronological g \<and> (\<forall>iv \<in> set g. fst (snd iv) < snd (snd iv))) \<and>
   (\<exists>g w t. priority_scheduling example_processes = Some (g, w, t) \<and>
      chronological g \<and> (\<forall>iv \<in> set g. fst (snd iv) < snd (snd iv))) \<and>
   (\<exists>g w t. round_robin example_processes 2 = Some (Inr (g, w, t)) \<and>
      chronological g \<and> (\<forall>iv \<in> set g. fst (snd iv) < snd (snd iv)))"
proof -
  have v: "valid_processes example_processes"
    by (simp add: valid_processes_def example_processes_def)
  have q: "(0::int) < 2" by simp
  show ?thesis by (rule conjI [OF v conjI [OF q non_overlap [OF v q]]])
qed

text \<open>
  C8 (non-preemption): for every valid input and every process of it, the timeline
  returned by \<open>fcfs\<close>, by \<open>sjf\<close> and by \<open>priority_scheduling\<close> has exactly one
  interval of that process; the interval starts at or after the arrival of the process
  and spans its full burst.
\<close>

theorem non_preemption:
  assumes "valid_processes processes" and "p \<in> set processes"
  shows "(\<exists>g w t start. fcfs processes = (g, w, t) \<and> arrival p \<le> start \<and>
            filter (\<lambda>iv. fst iv = pid p) g = [(pid p, start, start + burst p)]) \<and>
         (\<exists>g w t start. sjf processes = Some (g, w, t) \<and> arrival p \<le> start \<and>
            filter (\<lambda>iv. fst iv = pid p) g = [(pid p, start, start + burst p)]) \<and>
         (\<exists>g w t start. priority_scheduling processes = Some (g, w, t) \<and> arrival p \<le> start \<and>
            filter (\<lambda>iv. fst iv = pid p) g = [(pid p, start, start + burst p)])"
proof -
  note d = valid_distinct [OF assms(1)]
  have "\<exists>g w t start. fcfs processes = (g, w, t) \<and> arrival p \<le> start \<and>
      filter (\<lambda>iv. fst iv = pid p) g = [(pid p, start, start + burst p)]"
  proof -
    from assms(1) obtain g w t time where r: "fcfs processes = (g, w, t)"
      and inv: "sched_inv (mset processes) time g w t" by (rule fcfs_result)
    from sched_inv_once [OF inv d assms(2)] r show ?thesis by blast
  qed
  moreover have "\<exists>g w t start. sjf processes = Some (g, w, t) \<and> arrival p \<le> start \<and>
      filter (\<lambda>iv. fst iv = pid p) g = [(pid p, start, start + burst p)]"
  proof -
    from assms(1) obtain g w t time where r: "sjf processes = Some (g, w, t)"
      and inv: "sched_inv (mset processes) time g w t" by (rule sjf_result)
    from sched_inv_once [OF inv d assms(2)] r show ?thesis by blast
  qed
  moreover have "\<exists>g w t start. priority_scheduling processes = Some (g, w, t) \<and>
      arrival p \<le> start \<and>
      filter (\<lambda>iv. fst iv = pid p) g = [(pid p, start, start + burst p)]"
  proof -
    from assms(1) obtain g w t time where r: "priority_scheduling processes = Some (g, w, t)"
      and inv: "sched_inv (mset processes) time g w t" by (rule priority_result)
    from sched_inv_once [OF inv d assms(2)] r show ?thesis by blast
  qed
  ultimately show ?thesis by (intro conjI)
qed

theorem non_preemption_witness:
  "valid_processes example_processes \<and>
   \<lparr>pid = ''P2'', burst = 3, arrival = 1, priority = 2\<rparr> \<in> set example_processes \<and>
   (\<exists>g w t start. fcfs example_processes = (g, w, t) \<and> 1 \<le> start \<and>
      filter (\<lambda>iv. fst iv = ''P2'') g = [(''P2'', start, start + 3)]) \<and>
   (\<exists>g w t start. sjf example_processes = Some (g, w, t) \<and> 1 \<le> start \<and>
      filter (\<lambda>iv. fst iv = ''P2'') g = [(''P2'', start, start + 3)]) \<and>
   (\<exists>g w t start. priority_scheduling example_processes = Some (g, w, t) \<and> 1 \<le> start \<and>
      filter (\<lambda>iv. fst iv = ''P2'') g = [(''P2'', start, start + 3)])"
proof -
  have v: "valid_processes example_processes"
    by (simp add: valid_processes_def example_processes_def)
  have m: "\<lparr>pid = ''P2'', burst = 3, arrival = 1, priority = 2\<rparr> \<in> set example_processes"
    by (simp add: example_processes_def)
  have c: "(\<exists>g w t start. fcfs example_processes = (g, w, t) \<and> 1 \<le> start \<and>
      filter (\<lambda>iv. fst iv = ''P2'') g = [(''P2'', start, start + 3)]) \<and>
   (\<exists>g w t start. sjf example_processes = Some (g, w, t) \<and> 1 \<le> start \<and>
      filter (\<lambda>iv. fst iv = ''P2'') g = [(''P2'', start, start + 3)]) \<and>
   (\<exists>g w t start. priority_scheduling example_processes = Some (g, w, t) \<and> 1 \<le> start \<and>
      filter (\<lambda>iv. fst iv = ''P2'') g = [(''P2'', start, start + 3)])"
    using non_preemption [OF v m] by (simp only: process.simps)
  show ?thesis by (rule conjI [OF v conjI [OF m c]])
qed



section \<open>Termination on valid input\<close>





section \<open>A quantum that no burst exceeds\<close>

lemma plan_simps:
  "plan_gantt [] = []"
  "plan_gantt ((p, s, f) # plan) = (pid p, s, f) # plan_gantt plan"
  "plan_waiting [] w = w"
  "plan_waiting ((p, s, f) # plan) w = plan_waiting plan (w(pid p \<mapsto> s - arrival p))"
  "plan_turnaround [] t = t"
  "plan_turnaround ((p, s, f) # plan) t = plan_turnaround plan (t(pid p \<mapsto> f - arrival p))"
  "plan_finish [] m = m"
  "plan_finish ((p, s, f) # plan) m = plan_finish plan (m(pid p \<mapsto> f))"
  by (simp_all add: plan_gantt_def plan_waiting_def plan_turnaround_def plan_finish_def)

lemma fcfs_loop_plan:
  "fcfs_loop ps time g w t =
     (g @ plan_gantt (fcfs_plan ps time), plan_waiting (fcfs_plan ps time) w,
      plan_turnaround (fcfs_plan ps time) t)"
  by (induction ps arbitrary: time g w t) (simp_all add: Let_def plan_simps)

lemma map_fst_fcfs_plan: "map fst (fcfs_plan ps time) = ps"
  by (induction ps arbitrary: time) (simp_all add: Let_def)

lemma plan_finish_keep:
  "k \<notin> pid ` set (map fst plan) \<Longrightarrow> plan_finish plan m k = m k"
proof (induction plan arbitrary: m)
  case Nil
  then show ?case by (simp add: plan_simps)
next
  case (Cons a plan)
  obtain p s f where a: "a = (p, s, f)" by (cases a)
  from Cons.prems have k: "k \<notin> pid ` set (map fst plan)" "k \<noteq> pid p" by (auto simp: a)
  have "plan_finish (a # plan) m k = plan_finish plan (m(pid p \<mapsto> f)) k"
    by (simp add: a plan_simps)
  also have "\<dots> = (m(pid p \<mapsto> f)) k" using k(1) by (rule Cons.IH)
  also have "\<dots> = m k" using k(2) by simp
  finally show ?case .
qed

lemma rr_metrics_plan:
  assumes "distinct (map pid ps)"
  shows "rr_metrics ps (plan_finish (fcfs_plan ps time) F) w t =
           Inr (plan_waiting (fcfs_plan ps time) w, plan_turnaround (fcfs_plan ps time) t)"
  using assms
proof (induction ps arbitrary: time F w t)
  case Nil
  then show ?case by (simp add: plan_simps)
next
  case (Cons p ps)
  let ?st = "if time < arrival p then arrival p else time"
  let ?plan = "fcfs_plan ps (?st + burst p)"
  from Cons.prems have d: "distinct (map pid ps)" and np: "pid p \<notin> pid ` set ps" by simp_all
  have "pid p \<notin> pid ` set (map fst ?plan)" using np by (simp add: map_fst_fcfs_plan)
  then have fin: "plan_finish ?plan (F(pid p \<mapsto> ?st + burst p)) (pid p) = Some (?st + burst p)"
    by (simp add: plan_finish_keep)
  have "rr_metrics (p # ps) (plan_finish (fcfs_plan (p # ps) time) F) w t =
      rr_metrics ps (plan_finish ?plan (F(pid p \<mapsto> ?st + burst p)))
        (w(pid p \<mapsto> ?st - arrival p))
        (t(pid p \<mapsto> ?st + burst p - arrival p))"
    by (simp add: Let_def plan_simps fin)
  also have "\<dots> = Inr (plan_waiting ?plan (w(pid p \<mapsto> ?st - arrival p)),
      plan_turnaround ?plan (t(pid p \<mapsto> ?st + burst p - arrival p)))"
    using d by (rule Cons.IH)
  also have "\<dots> = Inr (plan_waiting (fcfs_plan (p # ps) time) w,
      plan_turnaround (fcfs_plan (p # ps) time) t)"
    by (simp add: Let_def plan_simps)
  finally show ?case .
qed

lemma drop_admitted: "drop i P = admitted P t i @ drop (i + length (admitted P t i)) P"
proof -
  have "take (length (admitted P t i)) (drop i P) = admitted P t i"
    unfolding admitted_def by (metis append_eq_conv_conj takeWhile_dropWhile_id)
  then have "drop i P = admitted P t i @ drop (length (admitted P t i)) (drop i P)"
    by (metis append_take_drop_id)
  then show ?thesis by (simp add: add.commute)
qed

lemma fcfs_plan_idle:
  assumes "L = p # L'" and "time < arrival p"
  shows "fcfs_plan L (time + 1) = fcfs_plan L time"
proof -
  from assms(2) have "(if time + 1 < arrival p then arrival p else time + 1) = arrival p"
    by auto
  with assms show ?thesis by (simp add: Let_def)
qed

lemma fcfs_plan_ready:
  assumes "arrival p \<le> time"
  shows "fcfs_plan (p # L) time = (p, time, time + burst p) # fcfs_plan L (time + burst p)"
  using assms by (simp add: Let_def)

lemma rr_loop_large_quantum:
  assumes "rr_safe P s" and "rr_fresh q P s"
  shows "\<exists>s'. rr_loop q P s = Some (Inr s') \<and>
           rr_gantt s' = rr_gantt s @
             plan_gantt (fcfs_plan (rr_queue s @ drop (rr_i s) P) (rr_time s)) \<and>
           rr_finish_time s' =
             plan_finish (fcfs_plan (rr_queue s @ drop (rr_i s) P) (rr_time s)) (rr_finish_time s)"
  using wf_rr_measure [of P] assms
proof (induction s rule: wf_induct_rule)
  case (less s)
  let ?L = "rr_queue s @ drop (rr_i s) P"
  let ?t = "rr_time s"
  show ?case
  proof (cases "rr_cond P s")
    case False
    then have "?L = []" by (simp add: rr_cond_def)
    moreover from False have "rr_loop q P s = Some (Inr s)" by (subst rr_loop.simps) simp
    ultimately show ?thesis by (simp add: plan_simps)
  next
    case True
    then have "?L \<noteq> []" by (auto simp: rr_cond_def)
    then obtain x where "x \<in> set ?L" by (cases ?L) auto
    with less.prems(2) have q: "0 < q" unfolding rr_fresh_def by force
    from rr_body_safe [OF q less.prems(1) True] obtain s1 where
      s1: "rr_body q P s = Inr s1" "rr_safe P s1" "(s1, s) \<in> rr_measure P" by blast
    from True s1(1) have loop: "rr_loop q P s = rr_loop q P s1" by (subst rr_loop.simps) simp
    let ?a = "admitted P ?t (rr_i s)"
    let ?i1 = "rr_i s + length ?a"
    have L: "?L = (rr_queue s @ ?a) @ drop ?i1 P"
      using drop_admitted [of "rr_i s" P ?t] by simp
    from less.prems(2) have dL: "distinct (map pid ?L)"
      and fr: "\<forall>x \<in> set ?L. rr_remaining s (pid x) = Some (burst x) \<and> 0 < burst x \<and> burst x \<le> q"
      and ar: "\<forall>x \<in> set (rr_queue s). arrival x \<le> ?t"
      unfolding rr_fresh_def by blast+
    show ?thesis
    proof (cases "rr_queue s @ ?a")
      case Nil
      then have qe: "rr_queue s = []" and ae: "?a = []" by simp_all
      from True qe have lt: "rr_i s < length P" by (simp add: rr_cond_def)
      with ae have tl: "?t < arrival (P ! rr_i s)" by (simp add: admitted_Nil_iff)
      from lt qe have Lc: "?L = P ! rr_i s # drop (Suc (rr_i s)) P"
        by (simp add: Cons_nth_drop_Suc)
      from s1(1) have e1: "s1 = s\<lparr>rr_time := ?t + 1\<rparr>" by (simp add: rr_body_idle [OF Nil])
      have "rr_fresh q P s1" using less.prems(2) qe unfolding e1 rr_fresh_def by simp
      with less.IH [OF s1(3) s1(2)] obtain s' where
        "rr_loop q P s1 = Some (Inr s')"
        "rr_gantt s' = rr_gantt s1 @
             plan_gantt (fcfs_plan (rr_queue s1 @ drop (rr_i s1) P) (rr_time s1))"
        "rr_finish_time s' =
             plan_finish (fcfs_plan (rr_queue s1 @ drop (rr_i s1) P) (rr_time s1)) (rr_finish_time s1)"
        by blast
      moreover have "fcfs_plan ?L (?t + 1) = fcfs_plan ?L ?t" using Lc tl by (rule fcfs_plan_idle)
      ultimately show ?thesis unfolding loop by (simp add: e1)
    next
      case (Cons p rest)
      let ?L' = "rest @ drop ?i1 P"
      have Lp: "?L = p # ?L'" using L Cons by simp
      then have pL: "p \<in> set ?L" by simp
      with fr have r: "rr_remaining s (pid p) = Some (burst p)" and bp: "0 < burst p" "burst p \<le> q"
        by blast+
      then have m: "min q (burst p) = burst p" and nf: "\<not> 0 < burst p - min q (burst p)"
        by simp_all
      from s1(1) have e1: "s1 = \<lparr>rr_time = ?t + burst p, rr_i = ?i1, rr_queue = rest,
          rr_gantt = rr_gantt s @ [(pid p, ?t, ?t + burst p)],
          rr_remaining = (rr_remaining s)(pid p \<mapsto> 0),
          rr_finish_time = (rr_finish_time s)(pid p \<mapsto> ?t + burst p)\<rparr>"
        by (simp add: rr_body_finish [OF Cons r nf] m)
      have arq: "\<forall>x \<in> set (p # rest). arrival x \<le> ?t"
      proof
        fix x assume "x \<in> set (p # rest)"
        then have "x \<in> set (rr_queue s) \<or> x \<in> set ?a" unfolding Cons [symmetric] by simp
        then show "arrival x \<le> ?t" using ar admitted_arrival by blast
      qed
      from dL have "distinct (map pid (p # ?L'))" by (simp only: Lp)
      then have dL': "distinct (map pid ?L')" and np: "pid p \<notin> pid ` set ?L'"
        by (simp_all add: image_Un)
      have fr': "\<forall>x \<in> set ?L'. ((rr_remaining s)(pid p \<mapsto> 0)) (pid x) = Some (burst x) \<and>
          0 < burst x \<and> burst x \<le> q"
      proof
        fix x assume x: "x \<in> set ?L'"
        with np have "pid x \<noteq> pid p" by (metis imageI)
        moreover from x have "x \<in> set ?L" unfolding Lp by simp
        ultimately show "((rr_remaining s)(pid p \<mapsto> 0)) (pid x) = Some (burst x) \<and>
          0 < burst x \<and> burst x \<le> q" using fr by simp
      qed
      have ar': "\<forall>x \<in> set rest. arrival x \<le> ?t + burst p"
      proof
        fix x assume "x \<in> set rest"
        with arq have "arrival x \<le> ?t" by simp
        with bp(1) show "arrival x \<le> ?t + burst p" by simp
      qed
      have "rr_fresh q P s1" unfolding e1 rr_fresh_def using dL' fr' ar' by simp
      with less.IH [OF s1(3) s1(2)] obtain s' where
        "rr_loop q P s1 = Some (Inr s')"
        "rr_gantt s' = rr_gantt s1 @
             plan_gantt (fcfs_plan (rr_queue s1 @ drop (rr_i s1) P) (rr_time s1))"
        "rr_finish_time s' =
             plan_finish (fcfs_plan (rr_queue s1 @ drop (rr_i s1) P) (rr_time s1)) (rr_finish_time s1)"
        by blast
      moreover have "fcfs_plan ?L ?t = (p, ?t, ?t + burst p) # fcfs_plan ?L' (?t + burst p)"
        unfolding Lp using arq by (intro fcfs_plan_ready) simp
      ultimately show ?thesis unfolding loop by (simp add: e1 plan_simps)
    qed
  qed
qed

lemma rr_fresh_init:
  assumes "distinct (map pid P)" and "\<forall>p \<in> set P. 0 < burst p \<and> burst p \<le> q"
  shows "rr_fresh q P (rr_init P)"
proof -
  have "\<forall>p \<in> set P. rr_remaining_init P (pid p) = Some (burst p)"
    using assms(1) by (simp add: rr_remaining_init_def fold_remaining_distinct)
  with assms show ?thesis by (simp add: rr_fresh_def rr_init_def)
qed

text \<open>
  C10 (as stated in the specification, refuted): on every valid input with integer
  arrivals and positive bursts, a quantum that is at least every burst would make
  \<open>round_robin\<close> return the result of \<open>fcfs\<close>. The claim leaves the bursts free to be
  fractions. On \<open>fractional_processes\<close> with quantum 1, P1 ends at 1/2; \<open>fcfs\<close> then
  sets the clock to the arrival 3 of P2, while \<open>round_robin\<close> advances the clock by one
  unit at a time, over 3/2 and 5/2 to 7/2, and starts P2 there.
\<close>

theorem large_quantum_counterexample:
  "qvalid_processes fractional_processes \<and>
   qquantum_covers 1 fractional_processes \<and>
   qfcfs fractional_processes =
     ([(''P1'', 0, 1 / 2), (''P2'', 3, 4)],
      [''P1'' \<mapsto> 0, ''P2'' \<mapsto> 0], [''P1'' \<mapsto> 1 / 2, ''P2'' \<mapsto> 1]) \<and>
   qround_robin fractional_processes 1 =
     Some (Inr ([(''P1'', 0, 1 / 2), (''P2'', 7 / 2, 9 / 2)],
                [''P1'' \<mapsto> 0, ''P2'' \<mapsto> 1 / 2], [''P1'' \<mapsto> 1 / 2, ''P2'' \<mapsto> 3 / 2])) \<and>
   qround_robin fractional_processes 1 \<noteq> Some (Inr (qfcfs fractional_processes))"
proof -
  have v: "qvalid_processes fractional_processes"
    by (simp add: qvalid_processes_def fractional_processes_def)
  have c: "qquantum_covers 1 fractional_processes"
    by (simp add: qquantum_covers_def fractional_processes_def)
  have f: "qfcfs fractional_processes =
     ([(''P1'', 0, 1 / 2), (''P2'', 3, 4)],
      [''P1'' \<mapsto> 0, ''P2'' \<mapsto> 0], [''P1'' \<mapsto> 1 / 2, ''P2'' \<mapsto> 1])"
    by (simp add: qfcfs_def fractional_processes_def Let_def)
  have r: "qround_robin fractional_processes 1 =
     Some (Inr ([(''P1'', 0, 1 / 2), (''P2'', 7 / 2, 9 / 2)],
                [''P1'' \<mapsto> 0, ''P2'' \<mapsto> 1 / 2], [''P1'' \<mapsto> 1 / 2, ''P2'' \<mapsto> 3 / 2]))"
    by (simp add: qround_robin_def fractional_processes_def qrr_init_def qrr_remaining_init_def
        qrr_loop.simps qrr_cond_def qrr_body_def qadmit.simps Let_def)
  have n: "qround_robin fractional_processes 1 \<noteq> Some (Inr (qfcfs fractional_processes))"
    unfolding f r by simp
  show ?thesis by (intro conjI v c f r n)
qed

text \<open>
  C10 (amended): for every valid input whose arrivals and bursts are integers, if the
  quantum, an integer, is at least the burst of every process, \<open>round_robin\<close> returns
  the schedule result of \<open>fcfs\<close> on the same input: the same timeline, the same
  waiting times and the same turnaround times.
\<close>

theorem large_quantum:
  assumes "valid_processes processes" and "\<forall>p \<in> set processes. burst p \<le> quantum"
  shows "round_robin processes quantum = Some (Inr (fcfs processes))"
proof -
  let ?P = "sort_key arrival processes"
  let ?plan = "fcfs_plan ?P 0"
  note dist = valid_sorted(2) [OF assms(1)] and pos = valid_sorted(1) [OF assms(1)]
  have "\<forall>p \<in> set ?P. 0 < burst p \<and> burst p \<le> quantum" using pos assms(2) by simp
  with dist have "rr_fresh quantum ?P (rr_init ?P)" by (rule rr_fresh_init)
  with rr_safe_init obtain s' where loop: "rr_loop quantum ?P (rr_init ?P) = Some (Inr s')"
    and g: "rr_gantt s' = rr_gantt (rr_init ?P) @
        plan_gantt (fcfs_plan (rr_queue (rr_init ?P) @ drop (rr_i (rr_init ?P)) ?P)
          (rr_time (rr_init ?P)))"
    and f: "rr_finish_time s' =
        plan_finish (fcfs_plan (rr_queue (rr_init ?P) @ drop (rr_i (rr_init ?P)) ?P)
          (rr_time (rr_init ?P))) (rr_finish_time (rr_init ?P))"
    using rr_loop_large_quantum [of ?P "rr_init ?P" quantum] by blast
  from g have g': "rr_gantt s' = plan_gantt ?plan" by (simp add: rr_init_def)
  from f have f': "rr_finish_time s' = plan_finish ?plan Map.empty" by (simp add: rr_init_def)
  have m: "rr_metrics ?P (rr_finish_time s') Map.empty Map.empty =
      Inr (plan_waiting ?plan Map.empty, plan_turnaround ?plan Map.empty)"
    unfolding f' using dist by (rule rr_metrics_plan)
  have "round_robin processes quantum =
      Some (Inr (plan_gantt ?plan, plan_waiting ?plan Map.empty, plan_turnaround ?plan Map.empty))"
    using loop m g' by (simp add: round_robin_def Let_def)
  moreover have "fcfs processes =
      (plan_gantt ?plan, plan_waiting ?plan Map.empty, plan_turnaround ?plan Map.empty)"
    by (simp add: fcfs_def fcfs_loop_plan)
  ultimately show ?thesis by simp
qed

theorem large_quantum_witness:
  "valid_processes example_processes \<and>
   round_robin example_processes 8 = Some (Inr (fcfs example_processes)) \<and>
   fcfs example_processes =
     ([(''P1'', 0, 5), (''P2'', 5, 8), (''P3'', 8, 16)],
      [''P1'' \<mapsto> 0, ''P2'' \<mapsto> 4, ''P3'' \<mapsto> 6],
      [''P1'' \<mapsto> 5, ''P2'' \<mapsto> 7, ''P3'' \<mapsto> 14])"
proof -
  have v: "valid_processes example_processes"
    by (simp add: valid_processes_def example_processes_def)
  have b: "\<forall>p \<in> set example_processes. burst p \<le> 8" by (simp add: example_processes_def)
  have e: "fcfs example_processes =
     ([(''P1'', 0, 5), (''P2'', 5, 8), (''P3'', 8, 16)],
      [''P1'' \<mapsto> 0, ''P2'' \<mapsto> 4, ''P3'' \<mapsto> 6],
      [''P1'' \<mapsto> 5, ''P2'' \<mapsto> 7, ''P3'' \<mapsto> 14])"
    by (simp add: fcfs_def example_processes_def)
  show ?thesis by (intro conjI v e large_quantum [OF v b])
qed

section \<open>The selection rule of shortest job first\<close>

lemma index_of_Cons: "index_of (a # xs) x = (if a = x then 0 else Suc (index_of xs x))"
  by (simp add: index_of_def)

lemma sorted_wrt_index_of:
  "distinct xs \<Longrightarrow> sorted_wrt (\<lambda>x y. index_of xs x < index_of xs y) xs"
proof (induction xs)
  case Nil
  then show ?case by simp
next
  case (Cons a xs)
  then have ih: "sorted_wrt (\<lambda>x y. index_of xs x < index_of xs y) xs" and a: "a \<notin> set xs"
    by simp_all
  have "sorted_wrt (\<lambda>x y. index_of (a # xs) x < index_of (a # xs) y) xs"
  proof (rule sorted_wrt_mono_rel [OF _ ih])
    fix x y assume "x \<in> set xs" "y \<in> set xs" "index_of xs x < index_of xs y"
    with a show "index_of (a # xs) x < index_of (a # xs) y" by (auto simp: index_of_Cons)
  qed
  moreover have "\<forall>y \<in> set xs. index_of (a # xs) a < index_of (a # xs) y"
    using a by (auto simp: index_of_Cons)
  ultimately show ?case by simp
qed

lemma index_of_take_drop:
  assumes "distinct xs" and "x \<in> set (take i xs)" and "y \<in> set (drop i xs)"
  shows "index_of xs x < index_of xs y"
proof -
  from assms(1) have "sorted_wrt (\<lambda>x y. index_of xs x < index_of xs y) (take i xs @ drop i xs)"
    by (simp add: sorted_wrt_index_of)
  with assms(2,3) show ?thesis unfolding sorted_wrt_append by blast
qed

lemma index_of_filter:
  assumes "distinct xs" and "x \<in> set xs" and "y \<in> set xs" and "Q x" and "Q y"
  shows "index_of (filter Q xs) x < index_of (filter Q xs) y \<longleftrightarrow> index_of xs x < index_of xs y"
  using assms
proof (induction xs)
  case Nil
  then show ?case by simp
next
  case (Cons a xs)
  show ?case
  proof (cases "a = x \<or> a = y")
    case True
    with Cons.prems show ?thesis by (auto simp: index_of_Cons)
  next
    case False
    with Cons.prems have "x \<in> set xs" "y \<in> set xs" "distinct xs" by auto
    with Cons.IH Cons.prems(4,5) have "index_of (filter Q xs) x < index_of (filter Q xs) y \<longleftrightarrow>
        index_of xs x < index_of xs y" by simp
    with False show ?thesis by (simp add: index_of_Cons)
  qed
qed

lemma sorted_wrt_insort_key_stable:
  assumes "sorted_wrt (key_then_index key idx) ys"
    and "\<forall>y \<in> set ys. key x = key y \<longrightarrow> idx x < idx y"
  shows "sorted_wrt (key_then_index key idx) (insort_key key x ys)"
  using assms
proof (induction ys)
  case Nil
  then show ?case by simp
next
  case (Cons y ys)
  show ?case
  proof (cases "key x \<le> key y")
    case True
    have "key_then_index key idx x z" if "z \<in> set (y # ys)" for z
    proof -
      have "key y \<le> key z" using Cons.prems(1) that by (auto simp: key_then_index_def)
      with True have "key x \<le> key z" by simp
      with Cons.prems(2) that show ?thesis by (auto simp: key_then_index_def)
    qed
    with True Cons.prems(1) show ?thesis by simp
  next
    case False
    have "key_then_index key idx y z" if "z \<in> set (insort_key key x ys)" for z
    proof -
      from that have "z = x \<or> z \<in> set ys" by (simp add: set_insort_key)
      with False Cons.prems(1) show ?thesis by (auto simp: key_then_index_def)
    qed
    moreover have "sorted_wrt (key_then_index key idx) (insort_key key x ys)"
      using Cons.prems by (intro Cons.IH) simp_all
    ultimately show ?thesis using False by simp
  qed
qed

lemma sorted_wrt_sort_key_stable:
  assumes "sorted_wrt (\<lambda>x y. key x = key y \<longrightarrow> idx x < idx y) xs"
  shows "sorted_wrt (key_then_index key idx) (sort_key key xs)"
  using assms
proof (induction xs)
  case Nil
  then show ?case by simp
next
  case (Cons x xs)
  then have "sorted_wrt (key_then_index key idx) (sort_key key xs)"
    and "\<forall>y \<in> set (sort_key key xs). key x = key y \<longrightarrow> idx x < idx y" by simp_all
  then have "sorted_wrt (key_then_index key idx) (insort_key key x (sort_key key xs))"
    by (rule sorted_wrt_insort_key_stable)
  then show ?case by (simp add: sort_key_simps)
qed

lemma takeWhile_eq_filter_sorted:
  assumes "sorted (map f xs)"
  shows "takeWhile (\<lambda>x. f x \<le> (t::int)) xs = filter (\<lambda>x. f x \<le> t) xs"
  using assms
proof (induction xs)
  case Nil
  then show ?case by simp
next
  case (Cons a xs)
  show ?case
  proof (cases "f a \<le> t")
    case True
    with Cons show ?thesis by simp
  next
    case False
    with Cons.prems have "\<forall>x \<in> set xs. \<not> f x \<le> t" by auto
    then have "filter (\<lambda>x. f x \<le> t) xs = []" by (simp add: filter_empty_conv)
    with False show ?thesis by simp
  qed
qed

lemma index_of_sorted:
  assumes "sorted (map f xs)" and "distinct xs" and "x \<in> set xs" and "y \<in> set xs"
    and "f y < (f x :: int)"
  shows "index_of xs y < index_of xs x"
  using assms
proof (induction xs)
  case Nil
  then show ?case by simp
next
  case (Cons a xs)
  from Cons.prems(1) have le: "\<forall>z \<in> set xs. f a \<le> f z" and s: "sorted (map f xs)" by simp_all
  from Cons.prems(5) have ne: "x \<noteq> y" by auto
  show ?case
  proof (cases "a = x")
    case True
    with ne Cons.prems(4) have "y \<in> set xs" by auto
    with le True have "f x \<le> f y" by simp
    with Cons.prems(5) show ?thesis by simp
  next
    case False
    note ax = this
    show ?thesis
    proof (cases "a = y")
      case True
      with ne show ?thesis by (simp add: index_of_Cons)
    next
      case False
      with ax Cons.prems have "x \<in> set xs" "y \<in> set xs" "distinct xs" by auto
      with Cons.IH s Cons.prems(5) have "index_of xs y < index_of xs x" by simp
      with ax False show ?thesis by (simp add: index_of_Cons)
    qed
  qed
qed

lemma sorted_index_input:
  assumes d: "distinct ps" and x: "x \<in> set ps" and y: "y \<in> set ps"
    and lt: "index_of (sort_key arrival ps) x < index_of (sort_key arrival ps) y"
  shows "arrival x < arrival y \<or> (arrival x = arrival y \<and> index_of ps x < index_of ps y)"
proof -
  let ?P = "sort_key arrival ps"
  have dP: "distinct ?P" using d by simp
  have xP: "x \<in> set ?P" and yP: "y \<in> set ?P" using x y by simp_all
  have "\<not> arrival y < arrival x"
  proof
    assume "arrival y < arrival x"
    with sorted_sort_key [of arrival ps] dP xP yP have "index_of ?P y < index_of ?P x"
      by (rule index_of_sorted [where f = arrival])
    with lt show False by simp
  qed
  then have le: "arrival x \<le> arrival y" by simp
  show ?thesis
  proof (cases "arrival x = arrival y")
    case False
    with le show ?thesis by simp
  next
    case True
    let ?Q = "\<lambda>z. arrival z = arrival x"
    have Qx: "?Q x" by simp
    have Qy: "?Q y" using True by simp
    have "index_of (filter ?Q ?P) x < index_of (filter ?Q ?P) y"
      using index_of_filter [of ?P x y ?Q, OF dP xP yP Qx Qy] lt by (rule iffD2)
    moreover have "filter ?Q ?P = filter ?Q ps" by (rule sort_key_stable)
    ultimately have "index_of (filter ?Q ps) x < index_of (filter ?Q ps) y" by (simp only:)
    with index_of_filter [of ps x y ?Q, OF d x y Qx Qy]
    have "index_of ps x < index_of ps y" by (rule iffD1)
    with True show ?thesis by simp
  qed
qed

lemma np_ordered_sort:
  assumes dP: "distinct P" and ord: "np_ordered key P s"
  shows "sorted_wrt (key_then_index key (index_of P))
           (sort_key key (np_ready s @ admitted P (np_time s) (np_i s)))"
proof (rule sorted_wrt_sort_key_stable)
  let ?a = "admitted P (np_time s) (np_i s)"
  let ?r = "\<lambda>x y. key x = key y \<longrightarrow> index_of P x < index_of P y"
  from ord have sub: "set (np_ready s) \<subseteq> set (take (np_i s) P)"
    and srt: "sorted_wrt (key_then_index key (index_of P)) (np_ready s)"
    by (simp_all add: np_ordered_def)
  have 1: "sorted_wrt ?r (np_ready s)"
    by (rule sorted_wrt_mono_rel [OF _ srt]) (auto simp: key_then_index_def)
  have "sorted_wrt (\<lambda>x y. index_of P x < index_of P y) P" using dP by (rule sorted_wrt_index_of)
  then have "sorted_wrt (\<lambda>x y. index_of P x < index_of P y) ?a"
    unfolding admitted_def by simp
  then have 2: "sorted_wrt ?r ?a"
    by (rule sorted_wrt_mono_rel [rotated]) simp
  have 3: "\<forall>x \<in> set (np_ready s). \<forall>y \<in> set ?a. ?r x y"
  proof (intro ballI impI)
    fix x y assume "x \<in> set (np_ready s)" "y \<in> set ?a"
    then have "x \<in> set (take (np_i s) P)" "y \<in> set (drop (np_i s) P)"
      using sub set_admitted_drop by blast+
    with dP show "index_of P x < index_of P y" by (rule index_of_take_drop)
  qed
  from 1 2 3 show "sorted_wrt ?r (np_ready s @ ?a)" by (simp add: sorted_wrt_append)
qed

lemma np_ordered_body:
  assumes dP: "distinct P" and ord: "np_ordered key P s"
  shows "np_ordered key P (np_body key P s)"
proof (cases "np_ready s @ admitted P (np_time s) (np_i s) = []")
  case True
  with ord show ?thesis by (simp add: np_body_idle [OF True] np_ordered_def)
next
  case False
  let ?a = "admitted P (np_time s) (np_i s)"
  let ?S = "sort_key key (np_ready s @ ?a)"
  from ord have i: "np_i s \<le> length P" and sub: "set (np_ready s) \<subseteq> set (take (np_i s) P)"
    by (simp_all add: np_ordered_def)
  from False have "?S \<noteq> []" by (metis length_0_conv length_sort)
  then obtain p rest where S: "?S = p # rest" by (cases ?S) auto
  have "sorted_wrt (key_then_index key (index_of P)) ?S" using dP ord by (rule np_ordered_sort)
  then have 1: "sorted_wrt (key_then_index key (index_of P)) (tl ?S)" by (simp add: S)
  have "set (tl ?S) \<subseteq> set ?S" by (simp add: S subset_insertI)
  also have "set ?S = set (np_ready s) \<union> set ?a" by simp
  also have "\<dots> \<subseteq> set (take (np_i s + length ?a) P)" using sub by (auto simp: take_admitted)
  finally have 2: "set (tl ?S) \<subseteq> set (take (np_i s + length ?a) P)" .
  have 3: "np_i s + length ?a \<le> length P" using i by (rule admitted_le)
  from 1 2 3 show ?thesis by (simp add: np_body_run [OF False] Let_def np_ordered_def)
qed

lemma np_reach_ordered:
  assumes "distinct P" and "np_reach key P s"
  shows "np_ordered key P s"
  using assms(2)
proof (induction rule: np_reach.induct)
  case np_reach_init
  show ?case by (simp add: np_ordered_def np_init_def)
next
  case (np_reach_step s)
  with assms(1) show ?case by (intro np_ordered_body)
qed

lemma np_select:
  assumes dP: "distinct P" and ord: "np_ordered key P s"
    and ne: "np_ready s @ admitted P (np_time s) (np_i s) \<noteq> []"
  shows "hd (sort_key key (np_ready s @ admitted P (np_time s) (np_i s)))
           \<in> set (np_ready s @ admitted P (np_time s) (np_i s))"
    and "\<forall>x \<in> set (np_ready s @ admitted P (np_time s) (np_i s)).
           x \<noteq> hd (sort_key key (np_ready s @ admitted P (np_time s) (np_i s))) \<longrightarrow>
           key_then_index key (index_of P)
             (hd (sort_key key (np_ready s @ admitted P (np_time s) (np_i s)))) x"
    and "mset (tl (sort_key key (np_ready s @ admitted P (np_time s) (np_i s)))) =
           mset (np_ready s @ admitted P (np_time s) (np_i s)) -
           {#hd (sort_key key (np_ready s @ admitted P (np_time s) (np_i s)))#}"
proof -
  let ?R = "np_ready s @ admitted P (np_time s) (np_i s)"
  let ?S = "sort_key key ?R"
  from ne have "?S \<noteq> []" by (metis length_0_conv length_sort)
  then obtain p rest where S: "?S = p # rest" by (cases ?S) auto
  have setS: "set ?R = insert p (set rest)" using S by (metis list.simps(15) set_sort)
  have srt: "sorted_wrt (key_then_index key (index_of P)) (p # rest)"
    using np_ordered_sort [OF dP ord, of] by (simp only: S)
  show "hd ?S \<in> set ?R" using setS by (simp add: S)
  show "\<forall>x \<in> set ?R. x \<noteq> hd ?S \<longrightarrow> key_then_index key (index_of P) (hd ?S) x"
    using srt setS by (auto simp: S)
  have "mset ?R = add_mset p (mset rest)" using S by (metis mset.simps(2) mset_sort)
  then show "mset (tl ?S) = mset ?R - {#hd ?S#}" by (simp add: S)
qed

lemma admitted_filter:
  assumes "sorted (map arrival P)"
  shows "admitted P t i = filter (\<lambda>p. arrival p \<le> t) (drop i P)"
proof -
  have "sorted (drop i (map arrival P))" using assms by (rule sorted_wrt_drop)
  then have "sorted (map arrival (drop i P))" by (simp add: drop_map)
  then show ?thesis unfolding admitted_def by (rule takeWhile_eq_filter_sorted)
qed

lemma np_inv_admitted_so_far:
  assumes "np_inv P s"
  shows "mset (map pid (take (np_i s) P)) =
           mset (map pid (np_ready s)) + mset (map fst (np_gantt s))"
proof -
  from assms obtain D where D: "D + mset (np_ready s) = mset (take (np_i s) P)"
    and "sched_inv D (np_time s) (np_gantt s) (np_waiting s) (np_turnaround s)"
    by (auto simp: np_inv_def)
  then have g: "image_mset pid D = mset (map fst (np_gantt s))" by (simp add: sched_inv_def)
  have "mset (map pid (take (np_i s) P)) = image_mset pid (D + mset (np_ready s))"
    by (simp add: D)
  also have "\<dots> = mset (map fst (np_gantt s)) + mset (map pid (np_ready s))"
    by (simp add: g)
  finally show ?thesis by (simp add: add.commute)
qed

text \<open>
  C7 (selection rule of \<open>sjf\<close>): let the input be valid and let \<open>s\<close> be a state in which
  the loop of \<open>sjf\<close> starts an iteration. The processes admitted before are those that
  are ready or have run. The admission loop appends to the ready list exactly the
  processes not admitted before whose arrival is at most the clock. If the ready list
  is then empty, the iteration only advances the clock by one. Otherwise it runs one
  ready process \<open>p\<close> for its full burst and removes it from the ready list, and \<open>p\<close> is
  the least ready process in the order by burst, then arrival, then position in the
  input.
\<close>

theorem sjf_selection:
  assumes "valid_processes processes"
    and "np_reach burst (sort_key arrival processes) s"
    and "np_cond (sort_key arrival processes) s"
  shows "let P = sort_key arrival processes;
             A = filter (\<lambda>p. arrival p \<le> np_time s) (drop (np_i s) P);
             R = np_ready s @ A;
             s' = np_body burst P s
         in mset (map pid (take (np_i s) P)) =
              mset (map pid (np_ready s)) + mset (map fst (np_gantt s)) \<and>
            admit P (np_time s) (np_i s) (np_ready s) = (np_i s + length A, R) \<and>
            (if R = [] then s' = s\<lparr>np_time := np_time s + 1\<rparr>
             else \<exists>p. p \<in> set R \<and>
                    (\<forall>x \<in> set R. x \<noteq> p \<longrightarrow>
                       burst p < burst x \<or>
                       (burst p = burst x \<and>
                        (arrival p < arrival x \<or>
                         (arrival p = arrival x \<and>
                          index_of processes p < index_of processes x)))) \<and>
                    np_i s' = np_i s + length A \<and>
                    mset (np_ready s') = mset R - {#p#} \<and>
                    np_gantt s' = np_gantt s @ [(pid p, np_time s, np_time s + burst p)] \<and>
                    np_time s' = np_time s + burst p)"
proof -
  let ?P = "sort_key arrival processes"
  let ?A = "filter (\<lambda>p. arrival p \<le> np_time s) (drop (np_i s) ?P)"
  let ?R = "np_ready s @ ?A"
  let ?s' = "np_body burst ?P s"
  note dist = valid_sorted(2) [OF assms(1)] and pos = valid_sorted(1) [OF assms(1)]
  from dist have dP: "distinct ?P" by (simp add: distinct_map)
  from assms(1) have dps: "distinct processes" by (simp add: valid_processes_def distinct_map)
  have A: "admitted ?P (np_time s) (np_i s) = ?A"
    by (rule admitted_filter) (rule sorted_sort_key)
  from dist pos assms(2) have inv: "np_inv ?P s" by (rule np_reach_inv)
  from dP assms(2) have ord: "np_ordered burst ?P s" by (rule np_reach_ordered)
  have 1: "mset (map pid (take (np_i s) ?P)) =
      mset (map pid (np_ready s)) + mset (map fst (np_gantt s))"
    using inv by (rule np_inv_admitted_so_far)
  have 2: "admit ?P (np_time s) (np_i s) (np_ready s) = (np_i s + length ?A, ?R)"
    by (simp add: admit_admitted A)
  have 3: "?s' = s\<lparr>np_time := np_time s + 1\<rparr>" if "?R = []"
  proof (rule np_body_idle)
    show "np_ready s @ admitted ?P (np_time s) (np_i s) = []" unfolding A by (rule that)
  qed
  have 4: "\<exists>p. p \<in> set ?R \<and>
      (\<forall>x \<in> set ?R. x \<noteq> p \<longrightarrow>
         burst p < burst x \<or>
         (burst p = burst x \<and>
          (arrival p < arrival x \<or>
           (arrival p = arrival x \<and> index_of processes p < index_of processes x)))) \<and>
      np_i ?s' = np_i s + length ?A \<and>
      mset (np_ready ?s') = mset ?R - {#p#} \<and>
      np_gantt ?s' = np_gantt s @ [(pid p, np_time s, np_time s + burst p)] \<and>
      np_time ?s' = np_time s + burst p" if ne: "?R \<noteq> []"
  proof -
    let ?p = "hd (sort_key burst ?R)"
    have ne': "np_ready s @ admitted ?P (np_time s) (np_i s) \<noteq> []"
      unfolding A by (rule ne)
    note sel = np_select [OF dP ord ne', unfolded A]
    have sub: "set ?R \<subseteq> set processes"
    proof -
      from ord have "set (np_ready s) \<subseteq> set (take (np_i s) ?P)" by (simp add: np_ordered_def)
      then have "set (np_ready s) \<subseteq> set ?P" by (meson in_set_takeD subsetD subsetI)
      moreover have "set ?A \<subseteq> set ?P" by (auto dest: in_set_dropD)
      ultimately show ?thesis by simp
    qed
    have a: "?p \<in> set ?R" by (rule sel(1))
    have b: "\<forall>x \<in> set ?R. x \<noteq> ?p \<longrightarrow>
         burst ?p < burst x \<or>
         (burst ?p = burst x \<and>
          (arrival ?p < arrival x \<or>
           (arrival ?p = arrival x \<and> index_of processes ?p < index_of processes x)))"
    proof (intro ballI impI)
      fix x assume x: "x \<in> set ?R" "x \<noteq> ?p"
      with sel(2) have k: "key_then_index burst (index_of ?P) ?p x" by blast
      show "burst ?p < burst x \<or>
         (burst ?p = burst x \<and>
          (arrival ?p < arrival x \<or>
           (arrival ?p = arrival x \<and> index_of processes ?p < index_of processes x)))"
      proof (cases "burst ?p < burst x")
        case True
        then show ?thesis by simp
      next
        case False
        with k have e: "burst ?p = burst x" and i: "index_of ?P ?p < index_of ?P x"
          by (simp_all add: key_then_index_def)
        from a sub have pp: "?p \<in> set processes" by blast
        from x(1) sub have xp: "x \<in> set processes" by blast
        from dps pp xp i have "arrival ?p < arrival x \<or>
            (arrival ?p = arrival x \<and> index_of processes ?p < index_of processes x)"
          by (rule sorted_index_input)
        with e show ?thesis by simp
      qed
    qed
    have c: "np_i ?s' = np_i s + length ?A"
      "np_gantt ?s' = np_gantt s @ [(pid ?p, np_time s, np_time s + burst ?p)]"
      "np_time ?s' = np_time s + burst ?p"
      "np_ready ?s' = tl (sort_key burst ?R)"
      by (simp_all add: np_body_run [OF ne'] Let_def A)
    have d: "mset (np_ready ?s') = mset ?R - {#?p#}" unfolding c(4) by (rule sel(3))
    show ?thesis by (intro exI [of _ ?p] conjI a b c(1) d c(2) c(3))
  qed
  from 1 2 3 4 show ?thesis unfolding Let_def by (intro conjI) simp_all
qed

theorem sjf_selection_witness:
  "valid_processes example_processes \<and>
   np_reach burst (sort_key arrival example_processes) example_after_first \<and>
   np_cond (sort_key arrival example_processes) example_after_first \<and>
   admit (sort_key arrival example_processes) 5 1 [] =
     (3, [\<lparr>pid = ''P2'', burst = 3, arrival = 1, priority = 2\<rparr>,
          \<lparr>pid = ''P3'', burst = 8, arrival = 2, priority = 3\<rparr>]) \<and>
   np_gantt (np_body burst (sort_key arrival example_processes) example_after_first) =
     [(''P1'', 0, 5), (''P2'', 5, 8)]"
proof -
  let ?P = "sort_key arrival example_processes"
  have P: "?P = example_processes" by (simp add: example_processes_def)
  have v: "valid_processes example_processes"
    by (simp add: valid_processes_def example_processes_def)
  have c0: "np_cond ?P np_init" by (simp add: np_cond_def np_init_def example_processes_def)
  have "np_body burst ?P np_init = example_after_first"
    unfolding P by (simp add: np_body_def np_init_def example_processes_def admit.simps
        example_after_first_def)
  with np_reach_step [OF np_reach_init c0, of burst]
  have r: "np_reach burst ?P example_after_first" by simp
  have c: "np_cond ?P example_after_first"
    by (simp add: np_cond_def example_after_first_def example_processes_def)
  from sjf_selection [OF v r c]
  have a: "admit ?P 5 1 [] =
     (3, [\<lparr>pid = ''P2'', burst = 3, arrival = 1, priority = 2\<rparr>,
          \<lparr>pid = ''P3'', burst = 8, arrival = 2, priority = 3\<rparr>])"
    unfolding P by (simp add: Let_def example_after_first_def example_processes_def)
  have g: "np_gantt (np_body burst ?P example_after_first) = [(''P1'', 0, 5), (''P2'', 5, 8)]"
    unfolding P by (simp add: np_body_def example_processes_def admit.simps
        example_after_first_def)
  show ?thesis by (intro conjI v r c a g)
qed

end
